theory Spec2Isabelle
  imports Main "HOL-Library.Word"
begin

section \<open>Machine integers of membuf.c\<close>

text \<open>
  The stream filter \<^verbatim>\<open>membuf.c\<close> keeps its positions in \<^verbatim>\<open>uint64_t\<close>, its
  request sizes in \<^verbatim>\<open>unsigned int\<close> and everything else (block indices, block
  offsets, return values) in \<^verbatim>\<open>int\<close>. Positions are \<open>64 word\<close>, request sizes
  \<open>32 word\<close>; a C \<^verbatim>\<open>int\<close> is a mathematical integer and every conversion
  between the widths is written as one of the functions below.
\<close>

type_synonym u64 = "64 word"
type_synonym u32 = "32 word"

definition int_of_u64 :: "u64 \<Rightarrow> int" where
  \<comment> \<open>\<^verbatim>\<open>uint64_t\<close> to \<^verbatim>\<open>int\<close>: the low 32 bits, read as two's complement\<close>
  "int_of_u64 w = sint (ucast w :: 32 word)"

definition int_of_u32 :: "u32 \<Rightarrow> int" where
  \<comment> \<open>\<^verbatim>\<open>unsigned int\<close> to \<^verbatim>\<open>int\<close>\<close>
  "int_of_u32 w = sint w"

definition u32_of_int :: "int \<Rightarrow> u32" where
  "u32_of_int i = word_of_int i"

definition u64_of_int :: "int \<Rightarrow> u64" where
  \<comment> \<open>\<^verbatim>\<open>int\<close> to \<^verbatim>\<open>uint64_t\<close>: sign extension, modulo \<open>2 ^ 64\<close>\<close>
  "u64_of_int i = word_of_int i"

definition u64_of_u32 :: "u32 \<Rightarrow> u64" where
  "u64_of_u32 w = ucast w"

definition int64_of_u64 :: "u64 \<Rightarrow> int" where
  \<comment> \<open>\<^verbatim>\<open>uint64_t\<close> to \<^verbatim>\<open>int64_t\<close>\<close>
  "int64_of_u64 w = sint w"

section \<open>Constants\<close>

definition BUFFER_BLOCK_SIZE :: int where
  "BUFFER_BLOCK_SIZE = 4 * 1024 * 1024"

definition BYTES_PER_READ :: int where
  "BYTES_PER_READ = 16 * 1024"

definition SHORT_SEEK_RANGE :: int where
  "SHORT_SEEK_RANGE = 64 * 1024"

text \<open>
  Modelled from the spec: the return-code macros \<^verbatim>\<open>VLC_SUCCESS\<close> and
  \<^verbatim>\<open>VLC_EGENERIC\<close> come from \<^verbatim>\<open>vlc_common.h\<close>, which is not among the sources.
  The spec names them success and generic error; success is 0 and the generic error is
  the same \<open>-1\<close> that \<^verbatim>\<open>Read\<close> and \<^verbatim>\<open>Peek\<close> return on failure.
\<close>

definition VLC_SUCCESS :: int where
  "VLC_SUCCESS = 0"

definition VLC_EGENERIC :: int where
  "VLC_EGENERIC = - 1"

section \<open>Data model\<close>

text \<open>
  A \<^verbatim>\<open>buffer_block_t\<close> without its bytes and its lock: the claims are about the valid
  range \<open>[i_data_begin, i_data_end)\<close> and the cursors, not about buffer contents.
\<close>

record buffer_block =
  i_block_size :: int
  i_data_begin :: int
  i_data_end :: int

text \<open>Where the worker thread stands, and its local variables.\<close>

datatype worker_pc =
    W_Sample    \<comment> \<open>about to call \<^verbatim>\<open>safe_GetPrebufferOffset\<close> (top of \<^verbatim>\<open>while( true )\<close>)\<close>
  | W_Check     \<comment> \<open>the end-of-stream test with the sampled offset\<close>
  | W_Park      \<comment> \<open>blocked in \<^verbatim>\<open>vlc_cond_wait( wait_rewind )\<close>\<close>
  | W_Prepare   \<comment> \<open>find, allocate and reconcile the target block\<close>
  | W_Fill      \<comment> \<open>head of the fill loop\<close>
  | W_Read      \<comment> \<open>the read from the source, under \<^verbatim>\<open>source_lock\<close>\<close>
  | W_Commit    \<comment> \<open>publish the bytes read\<close>
  | W_Exit      \<comment> \<open>\<^verbatim>\<open>EXIT_THREAD\<close>\<close>
  | W_Abort     \<comment> \<open>a failed \<^verbatim>\<open>assert\<close> or an access outside the block array\<close>

record worker =
  pc :: worker_pc
  w_prebuffer_offset :: u64
  w_block_index :: int
  w_block_offset :: int
  w_step_read :: int
  w_read_ret :: int
  w_need_rewind :: bool

record stream_sys =
  i_stream_size :: u64
  b_can_fastseek :: bool
  b_can_seek :: bool
  b_error :: bool
  b_close :: bool
  block_array :: "buffer_block option list"
  i_stream_offset :: u64
  i_prebuffer_offset :: u64
  b_buffered_eos :: bool
  prebuffer_thread :: worker
  p_temp_peek :: bool
  i_temp_peek_capacity :: int

text \<open>
  The upstream source is an external collaborator: its state is a type parameter and its
  operations are passed in.
\<close>

record 'src source_ops =
  stream_Size :: "'src \<Rightarrow> u64"
  stream_Tell :: "'src \<Rightarrow> u64"
  stream_Seek :: "'src \<Rightarrow> u64 \<Rightarrow> int \<times> 'src"
  stream_Read :: "'src \<Rightarrow> int \<Rightarrow> int \<times> 'src"
  stream_CAN_SEEK :: "'src \<Rightarrow> bool"
  stream_CAN_FASTSEEK :: "'src \<Rightarrow> bool"

record 'src stream_t =
  p_sys :: stream_sys
  p_source :: 'src

text \<open>
  What a call does: return, stop at a failed \<^verbatim>\<open>assert\<close>, run into behaviour
  that C leaves undefined (a read outside the block array, a signed overflow), or stay
  blocked in a condition wait that nobody ends.
\<close>

datatype 'a result = Return 'a | Assert_fail | Undefined_behaviour | Blocked

fun bind_result :: "'a result \<Rightarrow> ('a \<Rightarrow> 'b result) \<Rightarrow> 'b result" where
  "bind_result (Return x) f = f x"
| "bind_result Assert_fail f = Assert_fail"
| "bind_result Undefined_behaviour f = Undefined_behaviour"
| "bind_result Blocked f = Blocked"

subsection \<open>The block array\<close>

definition vlc_array_count :: "'a list \<Rightarrow> int" where
  "vlc_array_count arr = int (length arr)"

definition vlc_array_item_at_index :: "'a list \<Rightarrow> int \<Rightarrow> 'a option" where
  \<comment> \<open>\<open>None\<close> is an index outside the array, which C does not check\<close>
  "vlc_array_item_at_index arr i =
     (if 0 \<le> i \<and> i < vlc_array_count arr then Some (arr ! nat i) else None)"

definition vlc_array_set :: "'a list \<Rightarrow> 'a \<Rightarrow> int \<Rightarrow> 'a list" where
  "vlc_array_set arr x i = arr[nat i := x]"

definition buffer_block_Alloc :: buffer_block where
  "buffer_block_Alloc =
     \<lparr>i_block_size = BUFFER_BLOCK_SIZE, i_data_begin = 0, i_data_end = 0\<rparr>"

section \<open>unsafe_FindRewindBufferedPosition\<close>

function FindRewind_loop ::
  "buffer_block option list \<Rightarrow> int \<Rightarrow> int \<Rightarrow> u64 \<Rightarrow> u64 result" where
  "FindRewind_loop arr i_block_index i_block_offset i_rewind_pos =
     (if i_block_index < vlc_array_count arr then
        (case vlc_array_item_at_index arr i_block_index of
           None \<Rightarrow> Undefined_behaviour
         | Some None \<Rightarrow> Return i_rewind_pos
         | Some (Some p_block) \<Rightarrow>
             if i_block_offset < i_data_begin p_block then Return i_rewind_pos
             else if i_block_offset \<ge> i_data_end p_block then Return i_rewind_pos
             else if i_data_end p_block < BUFFER_BLOCK_SIZE then
               Return (u64_of_int i_block_index * u64_of_int BUFFER_BLOCK_SIZE
                        + u64_of_int (i_data_end p_block))
             else
               FindRewind_loop arr (i_block_index + 1) 0
                 (u64_of_int i_block_index * u64_of_int BUFFER_BLOCK_SIZE
                   + u64_of_int (i_data_end p_block)))
      else Return i_rewind_pos)"
  by pat_completeness auto
termination
  by (relation "measure (\<lambda>(arr, i, off, r). nat (vlc_array_count arr - i))") auto

declare FindRewind_loop.simps [simp del]

definition unsafe_FindRewindBufferedPosition ::
  "stream_sys \<Rightarrow> u64 \<Rightarrow> u64 result" where
  "unsafe_FindRewindBufferedPosition sys i_start_pos =
     (let i_block_index = int_of_u64 (i_start_pos div u64_of_int BUFFER_BLOCK_SIZE);
          i_block_offset = int_of_u64 (i_start_pos mod u64_of_int BUFFER_BLOCK_SIZE)
      in if i_block_index \<ge> vlc_array_count (block_array sys) then Return i_start_pos
         else FindRewind_loop (block_array sys) i_block_index i_block_offset i_start_pos)"

section \<open>unsafe_fetchData\<close>

function fetch_loop ::
  "buffer_block option list \<Rightarrow> int \<Rightarrow> int \<Rightarrow> u32 \<Rightarrow> u32 \<Rightarrow> u32 result" where
  "fetch_loop arr i_block_index i_block_offset i_read_offset i_left_size =
     (if i_block_index < vlc_array_count arr then
        (case vlc_array_item_at_index arr i_block_index of
           None \<Rightarrow> Undefined_behaviour
         | Some None \<Rightarrow> Assert_fail
         | Some (Some p_block) \<Rightarrow>
             if \<not> i_block_offset \<ge> i_data_begin p_block then Assert_fail
             else if \<not> i_block_offset < i_data_end p_block then Assert_fail
             else if \<not> i_data_end p_block \<le> i_block_size p_block then Assert_fail
             else
               let i_block_left_size = u32_of_int (i_data_end p_block - i_block_offset);
                   i_step_read =
                     (if i_left_size > i_block_left_size then i_block_left_size
                      else i_left_size)
               in if i_left_size - i_step_read \<le> 0 then Return (i_read_offset + i_step_read)
                  else fetch_loop arr (i_block_index + 1) 0
                         (i_read_offset + i_step_read) (i_left_size - i_step_read))
      else Return i_read_offset)"
  by pat_completeness auto
termination
  by (relation "measure (\<lambda>(arr, i, off, r, l). nat (vlc_array_count arr - i))") auto

declare fetch_loop.simps [simp del]

definition unsafe_fetchData :: "stream_sys \<Rightarrow> u32 \<Rightarrow> int result" where
  "unsafe_fetchData sys i_read =
     (if \<not> i_stream_offset sys + u64_of_u32 i_read \<le> i_prebuffer_offset sys then Assert_fail
      else
        let i_block_index = int_of_u64 (i_stream_offset sys div u64_of_int BUFFER_BLOCK_SIZE);
            i_block_offset = int_of_u64 (i_stream_offset sys mod u64_of_int BUFFER_BLOCK_SIZE)
        in if \<not> i_block_index < vlc_array_count (block_array sys) then Assert_fail
           else
             bind_result (fetch_loop (block_array sys) i_block_index i_block_offset 0 i_read)
               (\<lambda>i_read_offset. Return (int_of_u32 i_read_offset)))"

section \<open>safe_WaitFillData\<close>

text \<open>
  The reader thread holds no lock most of the time, so the rest of the system (the worker,
  or whoever closes the stream) can run between two of its accesses to the shared variables.
  What the rest of the system does in one such span is a function on the whole state. A call
  of \<^verbatim>\<open>safe_WaitFillData\<close> receives the list of these functions and takes the
  next one at each point where it can be overtaken:

    \<^item> between a read of \<^verbatim>\<open>p_sys->i_prebuffer_offset\<close> under its lock into the local
      \<^verbatim>\<open>i_prebuffer_offset\<close> (before the loop, then after each sleep) and the reads of
      \<^verbatim>\<open>b_error\<close>, \<^verbatim>\<open>b_close\<close> and \<^verbatim>\<open>b_buffered_eos\<close> in the body of the
      loop, which take no lock;

    \<^item> while it sleeps in \<^verbatim>\<open>vlc_cond_wait( wait_fill )\<close>, until it has read
      \<^verbatim>\<open>p_sys->i_prebuffer_offset\<close> again;

    \<^item> between the end of the loop and the last read of \<^verbatim>\<open>b_error\<close> and
      \<^verbatim>\<open>b_close\<close>.

  Where the list is used up nothing runs in between, and a call that goes to sleep stays
  blocked. The reads up to the first one of \<^verbatim>\<open>p_sys->i_prebuffer_offset\<close> are one
  step: before it the call has read \<^verbatim>\<open>b_buffered_eos\<close> and, under the lock, the two
  offsets, and a call that is overtaken there does what a call made later does. The reads
  of the three flags in the body of the loop are one step as well.
\<close>

type_synonym 'src wake = "'src stream_t \<Rightarrow> 'src stream_t"

definition overtaken :: "'src wake list \<Rightarrow> 'src stream_t \<Rightarrow> 'src stream_t" where
  \<comment> \<open>the state after the next span of the list\<close>
  "overtaken ws s = (case ws of [] \<Rightarrow> s | w # ws' \<Rightarrow> w s)"

definition clamp_read :: "u32 \<Rightarrow> u64 \<Rightarrow> u32" where
  \<comment> \<open>\<^verbatim>\<open>int64_t d = ...; if( i_read > d ) i_read = d;\<close> with \<open>d\<close> a difference of positions\<close>
  "clamp_read i_read d =
     (if uint i_read > int64_of_u64 d then u32_of_int (int64_of_u64 d) else i_read)"

text \<open>
  The loop, from its test on. \<open>snapshot\<close> is the local \<^verbatim>\<open>i_prebuffer_offset\<close>; the
  result is \<^verbatim>\<open>i_read\<close>, the spans not yet taken and the state when the loop is left.
\<close>

function wait_loop ::
  "'src wake list \<Rightarrow> 'src stream_t \<Rightarrow> u32 \<Rightarrow> u64
     \<Rightarrow> (u32 \<times> 'src wake list \<times> 'src stream_t) result" where
  "wait_loop ws s i_read snapshot =
     (if \<not> i_stream_offset (p_sys s) + u64_of_u32 i_read > snapshot
        then Return (i_read, ws, s)
      else
        let s1 = overtaken ws s
        in if b_error (p_sys s1) \<or> b_close (p_sys s1) then Return (i_read, tl ws, s1)
           else if b_buffered_eos (p_sys s1) then
             Return (clamp_read i_read (snapshot - i_stream_offset (p_sys s1)), tl ws, s1)
           else
             (case tl ws of
                [] \<Rightarrow> Blocked
              | w # ws' \<Rightarrow>
                  wait_loop ws' (w s1) i_read (i_prebuffer_offset (p_sys (w s1)))))"
  by pat_completeness auto
termination
  by (relation "measure (\<lambda>(ws, s, i_read, snapshot). length ws)")
     (auto dest!: arg_cong [where f = length])

declare wait_loop.simps [simp del]

definition safe_WaitFillData ::
  "'src wake list \<Rightarrow> 'src stream_t \<Rightarrow> u32 \<Rightarrow> (int \<times> 'src stream_t) result" where
  "safe_WaitFillData ws s i_read0 =
     (let i_read =
            (if b_buffered_eos (p_sys s) then
               (if i_stream_offset (p_sys s) \<ge> i_prebuffer_offset (p_sys s) then 0
                else clamp_read i_read0
                       (i_prebuffer_offset (p_sys s) - i_stream_offset (p_sys s)))
             else i_read0)
      in if i_read = 0 then Return (int_of_u32 i_read, s)
         else
           let snapshot = i_prebuffer_offset (p_sys s)
           in if i_stream_offset (p_sys s) + u64_of_u32 i_read \<le> snapshot
                then Return (int_of_u32 i_read, s)
              else
                bind_result (wait_loop ws s i_read snapshot)
                  (\<lambda>(i_read', ws', s').
                     let s2 = overtaken ws' s'
                     in if b_error (p_sys s2) \<or> b_close (p_sys s2) then Return (- 1, s2)
                        else Return (int_of_u32 i_read', s2)))"

section \<open>Read and Peek\<close>

definition Read ::
  "'src wake list \<Rightarrow> 'src stream_t \<Rightarrow> bool \<Rightarrow> u32 \<Rightarrow> (int \<times> 'src stream_t) result" where
  \<comment> \<open>\<open>p_buffer\<close> says whether the caller's buffer pointer is non-null\<close>
  "Read ws s p_buffer i_read =
     bind_result (safe_WaitFillData ws s i_read)
       (\<lambda>(i_ready_data, s1).
          if i_ready_data \<le> 0 then Return (i_ready_data, s1)
          else if \<not> i_stream_offset (p_sys s1) + u64_of_int i_ready_data
                      \<le> i_prebuffer_offset (p_sys s1) then Assert_fail
          else if \<not> p_buffer then
            Return (i_ready_data,
              s1\<lparr>p_sys := (p_sys s1)\<lparr>i_stream_offset :=
                   i_stream_offset (p_sys s1) + u64_of_int i_ready_data\<rparr>\<rparr>)
          else
            bind_result (unsafe_fetchData (p_sys s1) (u32_of_int i_ready_data))
              (\<lambda>i_fetch.
                 if i_fetch \<le> 0 then Return (i_fetch, s1)
                 else Return (i_fetch,
                   s1\<lparr>p_sys := (p_sys s1)\<lparr>i_stream_offset :=
                        i_stream_offset (p_sys s1) + u64_of_int i_fetch\<rparr>\<rparr>)))"

definition peek_Free :: "stream_sys \<Rightarrow> stream_sys" where
  "peek_Free sys =
     (if p_temp_peek sys then sys\<lparr>p_temp_peek := False, i_temp_peek_capacity := 0\<rparr> else sys)"

definition peek_Alloc :: "bool \<Rightarrow> stream_sys \<Rightarrow> int \<Rightarrow> (bool \<times> stream_sys) result" where
  \<comment> \<open>\<open>malloc_ok\<close> is what \<^verbatim>\<open>malloc\<close> does if it is called; the result says whether
      the pointer returned is non-null\<close>
  "peek_Alloc malloc_ok sys i_size =
     (if i_size \<le> i_temp_peek_capacity sys then
        (if p_temp_peek sys then Return (True, sys) else Assert_fail)
      else if malloc_ok then
        Return (True, (peek_Free sys)\<lparr>p_temp_peek := True, i_temp_peek_capacity := i_size\<rparr>)
      else Return (False, (peek_Free sys)\<lparr>p_temp_peek := False\<rparr>))"

text \<open>Where \<^verbatim>\<open>*pp_peek\<close> points after a call of \<^verbatim>\<open>Peek\<close>.\<close>

datatype peek_ptr =
    Ptr_unset                \<comment> \<open>\<^verbatim>\<open>*pp_peek\<close> was not written\<close>
  | Ptr_block int int        \<comment> \<open>into the buffer of the block with this index, at this offset\<close>
  | Ptr_temp                 \<comment> \<open>the scratch buffer \<^verbatim>\<open>p_temp_peek\<close>\<close>

definition INT_MAX :: int where
  "INT_MAX = 2 ^ 31 - 1"

text \<open>
  In \<^verbatim>\<open>Peek\<close> the sum \<^verbatim>\<open>i_block_offset + i_ready_data\<close> is a sum of two
  \<^verbatim>\<open>int\<close>s: beyond \<^verbatim>\<open>INT_MAX\<close> it overflows, which C leaves undefined.
\<close>

definition Peek ::
  "bool \<Rightarrow> 'src wake list \<Rightarrow> 'src stream_t \<Rightarrow> bool \<Rightarrow> u32
     \<Rightarrow> (int \<times> peek_ptr \<times> 'src stream_t) result" where
  \<comment> \<open>\<open>pp_peek\<close> says whether the caller's out pointer is non-null\<close>
  "Peek malloc_ok ws s pp_peek i_peek =
     bind_result (safe_WaitFillData ws s i_peek)
       (\<lambda>(i_ready_data, s1).
          if i_ready_data \<le> 0 then Return (i_ready_data, Ptr_unset, s1)
          else if \<not> i_stream_offset (p_sys s1) + u64_of_int i_ready_data
                      \<le> i_prebuffer_offset (p_sys s1) then Assert_fail
          else if \<not> pp_peek then Return (i_ready_data, Ptr_unset, s1)
          else
            let i_block_index =
                  int_of_u64 (i_stream_offset (p_sys s1) div u64_of_int BUFFER_BLOCK_SIZE);
                i_block_offset =
                  int_of_u64 (i_stream_offset (p_sys s1) mod u64_of_int BUFFER_BLOCK_SIZE)
            in if i_block_offset + i_ready_data > INT_MAX then Undefined_behaviour
               else if i_block_offset + i_ready_data \<le> BUFFER_BLOCK_SIZE then
                 (case vlc_array_item_at_index (block_array (p_sys s1)) i_block_index of
                    None \<Rightarrow> Undefined_behaviour
                  | Some None \<Rightarrow> Assert_fail
                  | Some (Some p_block) \<Rightarrow>
                      if \<not> i_block_offset \<ge> i_data_begin p_block then Assert_fail
                      else if \<not> i_block_offset < i_data_end p_block then Assert_fail
                      else if \<not> i_data_end p_block \<le> i_block_size p_block then Assert_fail
                      else Return (int_of_u32 i_peek, Ptr_block i_block_index i_block_offset, s1))
               else
                 bind_result (peek_Alloc malloc_ok (p_sys s1) i_ready_data)
                   (\<lambda>(p_temp, sys2).
                      if \<not> p_temp then Return (- 1, Ptr_unset, s1\<lparr>p_sys := sys2\<rparr>)
                      else
                        bind_result (unsafe_fetchData sys2 (u32_of_int i_ready_data))
                          (\<lambda>i_fetch. Return (i_fetch, Ptr_temp, s1\<lparr>p_sys := sys2\<rparr>))))"

section \<open>Control\<close>

text \<open>
  Modelled from the spec: the query codes are an enumeration of \<^verbatim>\<open>vlc_stream.h\<close>, which
  is not among the sources. The constructors are the queries of the spec's table, each
  with the argument that \<^verbatim>\<open>Control\<close> takes from its \<^verbatim>\<open>va_list\<close>, and one more that
  stands for every other code.
\<close>

datatype stream_query =
    STREAM_CAN_FASTSEEK
  | STREAM_CAN_SEEK
  | STREAM_GET_POSITION
  | STREAM_SET_POSITION u64
  | STREAM_GET_SIZE
  | STREAM_GET_CACHED_SIZE
  | STREAM_GET_PREBUFFER_FINISHED
  | STREAM_OTHER_QUERY

text \<open>What \<^verbatim>\<open>Control\<close> writes through the pointer argument of a query.\<close>

datatype control_out = No_out | Out_bool bool | Out_u64 u64

definition signal_wait_rewind :: "'src stream_t \<Rightarrow> 'src stream_t" where
  \<comment> \<open>\<^verbatim>\<open>vlc_cond_signal( wait_rewind )\<close>: a worker parked in the wait resumes at the
      statement after it, the fresh sample of the prebuffer offset\<close>
  "signal_wait_rewind s =
     (if pc (prebuffer_thread (p_sys s)) = W_Park
      then s\<lparr>p_sys := (p_sys s)\<lparr>prebuffer_thread := (prebuffer_thread (p_sys s))\<lparr>pc := W_Sample\<rparr>\<rparr>\<rparr>
      else s)"

definition Control_seek_locked ::
  "'src source_ops \<Rightarrow> 'src stream_t \<Rightarrow> u64 \<Rightarrow> (int \<times> control_out \<times> 'src stream_t) result" where
  \<comment> \<open>\<^verbatim>\<open>STREAM_SET_POSITION\<close> from the taking of \<^verbatim>\<open>prebuffer_offset_lock\<close> to the return\<close>
  "Control_seek_locked ops s i_seek_pos =
     bind_result (unsafe_FindRewindBufferedPosition (p_sys s) i_seek_pos)
       (\<lambda>i_prebuffer_rewind_pos.
          if i_seek_pos \<le> i_prebuffer_offset (p_sys s) \<and> i_seek_pos < i_prebuffer_rewind_pos
          then
            Return (VLC_SUCCESS, No_out,
              signal_wait_rewind (s\<lparr>p_sys := (p_sys s)\<lparr>i_stream_offset := i_seek_pos\<rparr>\<rparr>))
          else
            let (i_seek_ret, src') = stream_Seek ops (p_source s) i_prebuffer_rewind_pos;
                i_rewind_offset = stream_Tell ops src';
                sys1 = (p_sys s)\<lparr>b_buffered_eos := False, i_prebuffer_offset := i_rewind_offset\<rparr>
            in if i_seek_pos \<le> i_rewind_offset then
                 Return (i_seek_ret, No_out,
                   signal_wait_rewind
                     \<lparr>p_sys = sys1\<lparr>i_stream_offset := i_seek_pos\<rparr>, p_source = src'\<rparr>)
               else if i_stream_offset sys1 > i_rewind_offset then
                 Return (VLC_EGENERIC, No_out,
                   signal_wait_rewind
                     \<lparr>p_sys = sys1\<lparr>i_stream_offset := i_rewind_offset\<rparr>, p_source = src'\<rparr>)
               else
                 Return (i_seek_ret, No_out,
                   signal_wait_rewind \<lparr>p_sys = sys1, p_source = src'\<rparr>))"

definition Control ::
  "'src source_ops \<Rightarrow> 'src wake list \<Rightarrow> 'src stream_t \<Rightarrow> stream_query
     \<Rightarrow> (int \<times> control_out \<times> 'src stream_t) result" where
  "Control ops ws s i_query =
     (case i_query of
        STREAM_CAN_FASTSEEK \<Rightarrow> Return (VLC_SUCCESS, Out_bool (b_can_fastseek (p_sys s)), s)
      | STREAM_CAN_SEEK \<Rightarrow> Return (VLC_SUCCESS, Out_bool (b_can_seek (p_sys s)), s)
      | STREAM_GET_POSITION \<Rightarrow> Return (VLC_SUCCESS, Out_u64 (i_stream_offset (p_sys s)), s)
      | STREAM_SET_POSITION i_seek_pos \<Rightarrow>
          if \<not> b_can_seek (p_sys s) then Return (VLC_EGENERIC, No_out, s)
          else if i_seek_pos > i_prebuffer_offset (p_sys s)
                  \<and> i_seek_pos < i_prebuffer_offset (p_sys s) + u64_of_int SHORT_SEEK_RANGE
          then
            bind_result
              (safe_WaitFillData ws s
                 (u32_of_int (int_of_u64 (i_seek_pos - i_stream_offset (p_sys s)))))
              (\<lambda>(i_ready_data, s1).
                 if i_ready_data \<le> 0 then Return (i_ready_data, No_out, s1)
                 else Control_seek_locked ops s1 i_seek_pos)
          else Control_seek_locked ops s i_seek_pos
      | STREAM_GET_SIZE \<Rightarrow> Return (VLC_SUCCESS, Out_u64 (i_stream_size (p_sys s)), s)
      | STREAM_GET_CACHED_SIZE \<Rightarrow>
          Return (VLC_SUCCESS, Out_u64 (i_prebuffer_offset (p_sys s)), s)
      | STREAM_GET_PREBUFFER_FINISHED \<Rightarrow> Return (VLC_EGENERIC, No_out, s)
      | STREAM_OTHER_QUERY \<Rightarrow> Return (VLC_EGENERIC, No_out, s))"

section \<open>PrebufferThread\<close>

text \<open>
  The worker is a machine that takes one step at a time; a step is a stretch of
  \<^verbatim>\<open>PrebufferThread\<close> that holds a lock or touches only the thread's own variables, so
  that steps of the worker and calls of the reader interleave as the locks allow.
\<close>

definition set_worker :: "worker \<Rightarrow> 'src stream_t \<Rightarrow> 'src stream_t" where
  "set_worker w s = s\<lparr>p_sys := (p_sys s)\<lparr>prebuffer_thread := w\<rparr>\<rparr>"

definition prepare_block :: "int \<Rightarrow> buffer_block \<Rightarrow> buffer_block" where
  \<comment> \<open>the three branches under \<^verbatim>\<open>range_lock\<close> that reconcile the block with the offset\<close>
  "prepare_block i_block_offset p_block =
     (if i_block_offset < i_data_begin p_block then
        p_block\<lparr>i_data_begin := i_block_offset, i_data_end := i_block_offset\<rparr>
      else if i_block_offset \<ge> i_data_end p_block then
        p_block\<lparr>i_data_end := i_block_offset\<rparr>
      else if i_block_offset < i_data_end p_block then
        p_block\<lparr>i_data_end := i_block_offset\<rparr>
      else p_block)"

definition new_block_size :: "u64 \<Rightarrow> int \<Rightarrow> int" where
  \<comment> \<open>"calculate block size" for a block just allocated\<close>
  "new_block_size stream_size i_block_index =
     (if 0 = stream_size then 0
      else
        let i_last_block_index =
              int_of_u64 ((stream_size - 1) div u64_of_int BUFFER_BLOCK_SIZE)
        in if i_block_index = i_last_block_index
           then int_of_u64 ((stream_size - 1) mod u64_of_int BUFFER_BLOCK_SIZE + 1)
           else BUFFER_BLOCK_SIZE)"

definition grow_array :: "'a option list \<Rightarrow> int \<Rightarrow> 'a option list" where
  \<comment> \<open>\<^verbatim>\<open>while( i_block_index >= vlc_array_count( ... ) ) vlc_array_append( ..., NULL );\<close>\<close>
  "grow_array arr i_block_index =
     arr @ replicate (nat (i_block_index + 1 - vlc_array_count arr)) None"

definition worker_prepare :: "bool \<Rightarrow> 'src stream_t \<Rightarrow> 'src stream_t" where
  \<comment> \<open>"find block to prebuffer, rewind if necessary"; \<open>malloc_ok\<close> is what
      \<^verbatim>\<open>buffer_block_Alloc\<close> does if it is called\<close>
  "worker_prepare malloc_ok s =
     (let w = prebuffer_thread (p_sys s);
          i_block_index =
            int_of_u64 (w_prebuffer_offset w div u64_of_int BUFFER_BLOCK_SIZE);
          i_block_offset =
            int_of_u64 (w_prebuffer_offset w mod u64_of_int BUFFER_BLOCK_SIZE);
          w1 = w\<lparr>w_block_index := i_block_index, w_block_offset := i_block_offset\<rparr>;
          arr1 = grow_array (block_array (p_sys s)) i_block_index
      in case vlc_array_item_at_index arr1 i_block_index of
           None \<Rightarrow> set_worker (w1\<lparr>pc := W_Abort\<rparr>) s
         | Some slot \<Rightarrow>
             let p_block =
                   (case slot of
                      Some b \<Rightarrow> Some b
                    | None \<Rightarrow>
                        if malloc_ok
                        then Some (buffer_block_Alloc\<lparr>i_block_size :=
                               new_block_size (i_stream_size (p_sys s)) i_block_index\<rparr>)
                        else None);
                 sys2 =
                   (case p_block of
                      None \<Rightarrow> (p_sys s)\<lparr>block_array := arr1, b_error := True\<rparr>
                    | Some b \<Rightarrow>
                        (p_sys s)\<lparr>block_array :=
                          vlc_array_set arr1 (Some (prepare_block i_block_offset b))
                            i_block_index\<rparr>)
             in if b_error sys2 \<or> b_close sys2
                then s\<lparr>p_sys := sys2\<lparr>prebuffer_thread := w1\<lparr>pc := W_Exit\<rparr>\<rparr>\<rparr>
                else s\<lparr>p_sys := sys2\<lparr>prebuffer_thread := w1\<lparr>pc := W_Fill\<rparr>\<rparr>\<rparr>)"

definition worker_commit :: "'src stream_t \<Rightarrow> 'src stream_t" where
  \<comment> \<open>from \<^verbatim>\<open>if( i_read_ret > 0 )\<close> to the end of the body of the fill loop\<close>
  "worker_commit s =
     (let w = prebuffer_thread (p_sys s) in
      case vlc_array_item_at_index (block_array (p_sys s)) (w_block_index w) of
        None \<Rightarrow> set_worker (w\<lparr>pc := W_Abort\<rparr>) s
      | Some None \<Rightarrow> set_worker (w\<lparr>pc := W_Abort\<rparr>) s
      | Some (Some p_block) \<Rightarrow>
          if w_read_ret w > 0 then
            let p_block1 = p_block\<lparr>i_data_end := i_data_end p_block + w_read_ret w\<rparr>;
                w1 = w\<lparr>w_block_offset := w_block_offset w + w_read_ret w\<rparr>;
                sys1 = (p_sys s)\<lparr>block_array :=
                         vlc_array_set (block_array (p_sys s)) (Some p_block1) (w_block_index w)\<rparr>
            in if \<not> i_data_end p_block1 \<le> i_block_size p_block1
               then s\<lparr>p_sys := sys1\<lparr>prebuffer_thread := w1\<lparr>pc := W_Abort\<rparr>\<rparr>\<rparr>
               else if w_prebuffer_offset w = i_prebuffer_offset sys1 then
                 (if w_need_rewind w1
                  then s\<lparr>p_sys := sys1\<lparr>
                         i_prebuffer_offset := w_prebuffer_offset w + u64_of_int (w_read_ret w),
                         prebuffer_thread := w1\<lparr>
                           w_prebuffer_offset := w_prebuffer_offset w + u64_of_int (w_read_ret w),
                           pc := W_Sample\<rparr>\<rparr>\<rparr>
                  else s\<lparr>p_sys := sys1\<lparr>
                         i_prebuffer_offset := w_prebuffer_offset w + u64_of_int (w_read_ret w),
                         prebuffer_thread := w1\<lparr>
                           w_prebuffer_offset := w_prebuffer_offset w + u64_of_int (w_read_ret w),
                           pc := W_Fill\<rparr>\<rparr>\<rparr>)
               else s\<lparr>p_sys := sys1\<lparr>prebuffer_thread := w1\<lparr>w_need_rewind := True, pc := W_Sample\<rparr>\<rparr>\<rparr>
          else if w_need_rewind w then set_worker (w\<lparr>pc := W_Sample\<rparr>) s
          else s\<lparr>p_sys := (p_sys s)\<lparr>b_error := True, prebuffer_thread := w\<lparr>pc := W_Exit\<rparr>\<rparr>\<rparr>)"

definition worker_step :: "'src source_ops \<Rightarrow> bool \<Rightarrow> 'src stream_t \<Rightarrow> 'src stream_t" where
  "worker_step ops malloc_ok s =
     (let sys = p_sys s; w = prebuffer_thread sys in
      case pc w of
        W_Sample \<Rightarrow>
          set_worker (w\<lparr>w_prebuffer_offset := i_prebuffer_offset sys, pc := W_Check\<rparr>) s
      | W_Check \<Rightarrow>
          if w_prebuffer_offset w \<ge> i_stream_size sys then
            (if b_error sys \<or> b_close sys then set_worker (w\<lparr>pc := W_Exit\<rparr>) s
             else s\<lparr>p_sys := sys\<lparr>b_buffered_eos := True, prebuffer_thread := w\<lparr>pc := W_Park\<rparr>\<rparr>\<rparr>)
          else set_worker (w\<lparr>pc := W_Prepare\<rparr>) s
      | W_Park \<Rightarrow> s
      | W_Prepare \<Rightarrow> worker_prepare malloc_ok s
      | W_Fill \<Rightarrow>
          (case vlc_array_item_at_index (block_array sys) (w_block_index w) of
             None \<Rightarrow> set_worker (w\<lparr>pc := W_Abort\<rparr>) s
           | Some None \<Rightarrow> set_worker (w\<lparr>pc := W_Abort\<rparr>) s
           | Some (Some p_block) \<Rightarrow>
               if w_block_offset w < i_block_size p_block then
                 (if b_error sys \<or> b_close sys then set_worker (w\<lparr>pc := W_Exit\<rparr>) s
                  else
                    let i_left_size = i_block_size p_block - w_block_offset w;
                        i_step_read =
                          (if BYTES_PER_READ > i_left_size then i_left_size else BYTES_PER_READ);
                        w1 = w\<lparr>w_step_read := i_step_read, w_read_ret := 0,
                               w_need_rewind := False\<rparr>
                    in if w_prebuffer_offset w = i_prebuffer_offset sys
                       then set_worker (w1\<lparr>pc := W_Read\<rparr>) s
                       else set_worker (w1\<lparr>w_need_rewind := True, pc := W_Sample\<rparr>) s)
               else set_worker (w\<lparr>pc := W_Sample\<rparr>) s)
      | W_Read \<Rightarrow>
          if w_prebuffer_offset w = stream_Tell ops (p_source s) then
            (let (i_read_ret, src') = stream_Read ops (p_source s) (w_step_read w)
             in \<lparr>p_sys = sys\<lparr>prebuffer_thread := w\<lparr>w_read_ret := i_read_ret, pc := W_Commit\<rparr>\<rparr>,
                 p_source = src'\<rparr>)
          else set_worker (w\<lparr>w_need_rewind := True, pc := W_Commit\<rparr>) s
      | W_Commit \<Rightarrow> worker_commit s
      | W_Exit \<Rightarrow> s
      | W_Abort \<Rightarrow> s)"

primrec worker_run :: "'src source_ops \<Rightarrow> nat \<Rightarrow> 'src wake" where
  \<comment> \<open>that many steps of the worker, no allocation failing\<close>
  "worker_run ops 0 s = s"
| "worker_run ops (Suc n) s = worker_run ops n (worker_step ops True s)"

section \<open>Open\<close>

definition sys_Alloc :: stream_sys where
  \<comment> \<open>\<^verbatim>\<open>memset( p_sys, 0, sizeof(stream_sys_t) )\<close>; the thread starts at the top of its loop\<close>
  "sys_Alloc =
     \<lparr>i_stream_size = 0, b_can_fastseek = False, b_can_seek = False, b_error = False,
      b_close = False, block_array = [], i_stream_offset = 0, i_prebuffer_offset = 0,
      b_buffered_eos = False,
      prebuffer_thread =
        \<lparr>pc = W_Sample, w_prebuffer_offset = 0, w_block_index = 0, w_block_offset = 0,
         w_step_read = 0, w_read_ret = 0, w_need_rewind = False\<rparr>,
      p_temp_peek = False, i_temp_peek_capacity = 0\<rparr>"

definition Open :: "'src source_ops \<Rightarrow> bool \<Rightarrow> bool \<Rightarrow> bool \<Rightarrow> 'src \<Rightarrow> 'src stream_t option" where
  \<comment> \<open>\<open>layered\<close>: the source has a source of its own; \<open>b_enabled\<close>: the option
      \<^verbatim>\<open>membuf-enable\<close>; \<open>clone_ok\<close>: \<^verbatim>\<open>vlc_clone\<close> succeeds. \<open>None\<close> is
      \<^verbatim>\<open>VLC_EGENERIC\<close>. The source is there and \<^verbatim>\<open>sys_Alloc\<close> gets its memory.\<close>
  "Open ops layered b_enabled clone_ok src =
     (if layered then None
      else if \<not> b_enabled then None
      else if stream_Size ops src \<le> 0 then None
      else if \<not> clone_ok then None
      else Some \<lparr>p_sys = sys_Alloc\<lparr>i_stream_size := stream_Size ops src,
                           b_can_fastseek := stream_CAN_FASTSEEK ops src,
                           b_can_seek := stream_CAN_SEEK ops src\<rparr>,
                 p_source = src\<rparr>)"

section \<open>A source for concrete runs\<close>

text \<open>
  A seekable source of a given size that counts the calls of its \<open>seek\<close>, as the test
  stub of the spec does. Its \<open>seek\<close> fails beyond the size, and always when
  \<open>stub_seek_ok\<close> is off; a failed \<open>seek\<close> leaves the position where it was. Its
  \<open>read\<close> delivers the bytes asked for, up to the size.
\<close>

record stub_source =
  stub_size :: u64
  stub_pos :: u64
  stub_seek_ok :: bool
  stub_seeks :: nat

definition stub_ops :: "stub_source source_ops" where
  "stub_ops =
     \<lparr>stream_Size = stub_size,
      stream_Tell = stub_pos,
      stream_Seek = (\<lambda>src pos.
         if stub_seek_ok src \<and> pos \<le> stub_size src
         then (VLC_SUCCESS, src\<lparr>stub_pos := pos, stub_seeks := Suc (stub_seeks src)\<rparr>)
         else (VLC_EGENERIC, src\<lparr>stub_seeks := Suc (stub_seeks src)\<rparr>)),
      stream_Read = (\<lambda>src n.
         if stub_pos src \<ge> stub_size src then (0, src)
         else
           let k = min n (uint (stub_size src - stub_pos src))
           in (k, src\<lparr>stub_pos := stub_pos src + u64_of_int k\<rparr>)),
      stream_CAN_SEEK = (\<lambda>src. True),
      stream_CAN_FASTSEEK = (\<lambda>src. True)\<rparr>"

definition stub_source_of :: "u64 \<Rightarrow> stub_source" where
  "stub_source_of n = \<lparr>stub_size = n, stub_pos = 0, stub_seek_ok = True, stub_seeks = 0\<rparr>"

section \<open>Concrete states\<close>

definition opened :: "stub_source stream_t" where
  \<comment> \<open>the filter just opened on a source of 12 MiB, three blocks\<close>
  "opened =
     \<lparr>p_sys = sys_Alloc\<lparr>i_stream_size := 12582912, b_can_fastseek := True, b_can_seek := True\<rparr>,
      p_source = stub_source_of 12582912\<rparr>"

definition inside_block :: buffer_block where
  \<comment> \<open>a block that holds the bytes \<open>[0, 10)\<close>\<close>
  "inside_block = \<lparr>i_block_size = 4194304, i_data_begin = 0, i_data_end = 10\<rparr>"

definition inside_state :: "stub_source stream_t" where
  \<comment> \<open>the worker about to prepare the block for prebuffer offset 5, inside \<open>[0, 10)\<close>\<close>
  "inside_state =
     opened\<lparr>p_sys := (p_sys opened)\<lparr>
       block_array := [Some inside_block],
       i_prebuffer_offset := 5,
       prebuffer_thread := (prebuffer_thread (p_sys opened))\<lparr>
         pc := W_Prepare, w_prebuffer_offset := 5\<rparr>\<rparr>\<rparr>"

definition filled_once :: "stub_source stream_t" where
  \<comment> \<open>six steps of the worker later: the first 16 KiB are in block 0\<close>
  "filled_once = worker_run stub_ops 6 opened"

definition opened_seek_fails :: "stub_source stream_t" where
  \<comment> \<open>just opened, on a source whose \<open>seek\<close> fails\<close>
  "opened_seek_fails = opened\<lparr>p_source := (p_source opened)\<lparr>stub_seek_ok := False\<rparr>\<rparr>"

definition small_opened :: "stub_source stream_t" where
  \<comment> \<open>the filter just opened on a source of 10 bytes\<close>
  "small_opened =
     \<lparr>p_sys = sys_Alloc\<lparr>i_stream_size := 10, b_can_fastseek := True, b_can_seek := True\<rparr>,
      p_source = stub_source_of 10\<rparr>"

definition small_at_eos :: "stub_source stream_t" where
  \<comment> \<open>nine steps of the worker later: all 10 bytes buffered, the worker parked\<close>
  "small_at_eos = worker_run stub_ops 9 small_opened"

definition small_read_all :: "stub_source stream_t" where
  \<comment> \<open>and after \<^verbatim>\<open>Read\<close> of the 10 bytes\<close>
  "small_read_all =
     (case Read [] small_at_eos True 10 of Return (n, s) \<Rightarrow> s | _ \<Rightarrow> small_at_eos)"

definition short_seek :: "'src stream_t \<Rightarrow> u64 \<Rightarrow> bool" where
  \<comment> \<open>the test of the "short seek" block of \<^verbatim>\<open>STREAM_SET_POSITION\<close>\<close>
  "short_seek s i_seek_pos =
     (i_seek_pos > i_prebuffer_offset (p_sys s)
      \<and> i_seek_pos < i_prebuffer_offset (p_sys s) + u64_of_int SHORT_SEEK_RANGE)"

definition small_filled :: "stub_source stream_t" where
  \<comment> \<open>six steps after opening: the commit has brought the prebuffer offset to the size\<close>
  "small_filled = worker_run stub_ops 6 small_opened"

definition small_sampled :: "stub_source stream_t" where
  \<comment> \<open>eight steps after opening: the worker holds a fresh sample and is about to test it\<close>
  "small_sampled = worker_run stub_ops 8 small_opened"

definition far_seeked :: "stub_source stream_t" where
  \<comment> \<open>from \<open>filled_once\<close>, a seek into the third block\<close>
  "far_seeked =
     (case Control stub_ops [] filled_once (STREAM_SET_POSITION 8388613) of
        Return (r, out, s) \<Rightarrow> s | _ \<Rightarrow> filled_once)"

definition far_filled :: "stub_source stream_t" where
  \<comment> \<open>seven steps of the worker later: 16 KiB of the third block are buffered\<close>
  "far_filled = worker_run stub_ops 7 far_seeked"

definition back_seeked :: "stub_source stream_t" where
  \<comment> \<open>and a seek back into the bytes of the first block\<close>
  "back_seeked =
     (case Control stub_ops [] far_filled (STREAM_SET_POSITION 10) of
        Return (r, out, s) \<Rightarrow> s | _ \<Rightarrow> far_filled)"

definition tail_seeked :: "stub_source stream_t" where
  \<comment> \<open>from \<open>opened\<close>, a seek to five bytes before the end\<close>
  "tail_seeked =
     (case Control stub_ops [] opened (STREAM_SET_POSITION 12582907) of
        Return (r, out, s) \<Rightarrow> s | _ \<Rightarrow> opened)"

definition tail_sampled :: "stub_source stream_t" where
  \<comment> \<open>eight steps later the worker has read to the end and sampled the prebuffer offset\<close>
  "tail_sampled = worker_run stub_ops 8 tail_seeked"

definition raced :: "stub_source stream_t" where
  \<comment> \<open>the reader seeks to 0, then the worker takes its next step\<close>
  "raced =
     worker_run stub_ops 1
       (case Control stub_ops [] tail_sampled (STREAM_SET_POSITION 0) of
          Return (r, out, s) \<Rightarrow> s | _ \<Rightarrow> tail_sampled)"

definition two_block_opened :: "stub_source stream_t" where
  \<comment> \<open>the filter just opened on a source of one block and 10 bytes\<close>
  "two_block_opened =
     \<lparr>p_sys = sys_Alloc\<lparr>i_stream_size := 4194314, b_can_fastseek := True, b_can_seek := True\<rparr>,
      p_source = stub_source_of 4194314\<rparr>"

definition two_block_seeked :: "stub_source stream_t" where
  \<comment> \<open>a seek to five bytes before the end of the first block\<close>
  "two_block_seeked =
     (case Control stub_ops [] two_block_opened (STREAM_SET_POSITION 4194299) of
        Return (r, out, s) \<Rightarrow> s | _ \<Rightarrow> two_block_opened)"

definition two_block_eos :: "stub_source stream_t" where
  \<comment> \<open>sixteen steps of the worker later: the last 15 bytes are buffered, across the two
      blocks, and the worker is parked\<close>
  "two_block_eos = worker_run stub_ops 16 two_block_seeked"

definition error_raised :: "'src wake" where
  \<comment> \<open>a span in which the worker sets \<open>b_error\<close>\<close>
  "error_raised s = s\<lparr>p_sys := (p_sys s)\<lparr>b_error := True\<rparr>\<rparr>"

definition eos_implies_end :: "stream_sys \<Rightarrow> bool" where
  "eos_implies_end sys = (b_buffered_eos sys \<longrightarrow> i_stream_size sys \<le> i_prebuffer_offset sys)"

definition four_gib_buffered :: "stub_source stream_t" where
  \<comment> \<open>a source of 8 GiB whose first 4 GiB the worker has buffered, in 1024 full blocks;
      nothing has been read yet\<close>
  "four_gib_buffered =
     \<lparr>p_sys = sys_Alloc\<lparr>
        i_stream_size := 8589934592, b_can_fastseek := True, b_can_seek := True,
        block_array :=
          replicate 1024
            (Some \<lparr>i_block_size = 4194304, i_data_begin = 0, i_data_end = 4194304\<rparr>),
        i_prebuffer_offset := 4294967296,
        prebuffer_thread :=
          \<lparr>pc = W_Fill, w_prebuffer_offset = 4294967296, w_block_index = 1023,
           w_block_offset = 4194304, w_step_read = 16384, w_read_ret = 16384,
           w_need_rewind = False\<rparr>\<rparr>,
      p_source = (stub_source_of 8589934592)\<lparr>stub_pos := 4294967296\<rparr>\<rparr>"

text \<open>
  What a waiting call sees. \<open>observed ws s k\<close> is the state after the first \<open>k\<close>
  spans of \<open>ws\<close>. A call that waits takes two spans in each round of its loop: it reads
  \<^verbatim>\<open>p_sys->i_prebuffer_offset\<close> in the state \<open>observed ws s (2 * k)\<close>, the flags in the
  state \<open>observed ws s (2 * k + 1)\<close>, and sleeps during the span after that.
\<close>

fun observed :: "'src wake list \<Rightarrow> 'src stream_t \<Rightarrow> nat \<Rightarrow> 'src stream_t" where
  "observed ws s 0 = s"
| "observed [] s (Suc k) = s"
| "observed (w # ws) s (Suc k) = observed ws (w s) k"

definition enough :: "'src stream_t \<Rightarrow> u32 \<Rightarrow> bool" where
  "enough s n = (i_stream_offset (p_sys s) + u64_of_u32 n \<le> i_prebuffer_offset (p_sys s))"

definition flagged :: "'src stream_t \<Rightarrow> bool" where
  "flagged s = (b_error (p_sys s) \<or> b_close (p_sys s) \<or> b_buffered_eos (p_sys s))"

text \<open>
  The data model of the spec: a position is buffered when its block exists and the range
  of the block covers its offset; a block is well formed when
  \<open>0 \<le> begin \<le> end \<le> capacity \<le> BLOCK_SIZE\<close>.
\<close>

definition buffered_at :: "buffer_block option list \<Rightarrow> int \<Rightarrow> bool" where
  "buffered_at arr q =
     (0 \<le> q \<and> q div BUFFER_BLOCK_SIZE < vlc_array_count arr
      \<and> (case arr ! nat (q div BUFFER_BLOCK_SIZE) of
            None \<Rightarrow> False
          | Some b \<Rightarrow> i_data_begin b \<le> q mod BUFFER_BLOCK_SIZE
                      \<and> q mod BUFFER_BLOCK_SIZE < i_data_end b))"

definition block_wf :: "buffer_block option \<Rightarrow> bool" where
  "block_wf slot =
     (case slot of
        None \<Rightarrow> True
      | Some b \<Rightarrow> 0 \<le> i_data_begin b \<and> i_data_begin b \<le> i_data_end b
                  \<and> i_data_end b \<le> i_block_size b \<and> i_block_size b \<le> BUFFER_BLOCK_SIZE)"

definition blocks_wf :: "buffer_block option list \<Rightarrow> bool" where
  "blocks_wf arr = list_all block_wf arr"

section \<open>Conversions\<close>

lemma BUFFER_BLOCK_SIZE_u64 [simp]: "u64_of_int BUFFER_BLOCK_SIZE = 4194304"
  by (simp add: u64_of_int_def BUFFER_BLOCK_SIZE_def)

lemma Open_opened: "Open stub_ops False True True (stub_source_of 12582912) = Some opened"
  by (simp add: Open_def opened_def stub_ops_def stub_source_of_def)

lemma unat_u64_of_int: "0 \<le> r \<Longrightarrow> r < 2 ^ 64 \<Longrightarrow> unat (u64_of_int r) = nat r"
  by (simp add: u64_of_int_def unat_eq_nat_uint take_bit_int_eq_self word_of_int_inverse)

lemma le_add_read:
  fixes x y :: u64
  assumes "x \<le> y" "unat y < 2 ^ 63" "0 < r" "r \<le> INT_MAX"
  shows "x \<le> y + u64_of_int r"
proof -
  have r: "unat (u64_of_int r) = nat r"
    using assms by (intro unat_u64_of_int) (auto simp: INT_MAX_def)
  have "unat y + unat (u64_of_int r) < 2 ^ 64"
    using assms r by (simp add: INT_MAX_def)
  then have "unat (y + u64_of_int r) = unat y + unat (u64_of_int r)"
    by (simp add: unat_word_ariths)
  then show ?thesis
    using assms(1) by (simp add: word_le_nat_alt)
qed

lemma bind_result_Return:
  "bind_result m f = Return y \<longleftrightarrow> (\<exists>x. m = Return x \<and> f x = Return y)"
  by (cases m) auto

section \<open>The prepare step of the worker\<close>

lemma prepare_block_inside:
  "i_data_begin b \<le> off \<Longrightarrow> off \<le> i_data_end b \<Longrightarrow> prepare_block off b = b\<lparr>i_data_end := off\<rparr>"
  by (simp add: prepare_block_def)

lemma grow_array_covered:
  "i < vlc_array_count arr \<Longrightarrow> grow_array arr i = arr"
  by (simp add: grow_array_def)

text \<open>
  C1 (as amended). In the prepare step of the worker, when the target block exists and
  its range satisfies \<open>begin \<le> offset \<le> end\<close> for the offset of the sampled prebuffer
  offset in its block, the block keeps its \<open>begin\<close> and its \<open>end\<close> becomes the offset:
  filling resumes at the offset, and the pair is left as it was exactly when
  \<open>offset = end\<close>. The bytes in \<open>[offset, end)\<close> are dropped.
\<close>

theorem prepare_inside_range_truncates:
  assumes blk: "vlc_array_item_at_index (block_array (p_sys s)) i = Some (Some b)"
    and i: "i = int_of_u64 (w_prebuffer_offset (prebuffer_thread (p_sys s)) div 4194304)"
    and off: "off = int_of_u64 (w_prebuffer_offset (prebuffer_thread (p_sys s)) mod 4194304)"
    and inside: "i_data_begin b \<le> off" "off \<le> i_data_end b"
  shows "block_array (p_sys (worker_prepare malloc_ok s))
           = (block_array (p_sys s))[nat i := Some (b\<lparr>i_data_end := off\<rparr>)]
         \<and> w_block_offset (prebuffer_thread (p_sys (worker_prepare malloc_ok s))) = off
         \<and> (b\<lparr>i_data_end := off\<rparr> = b \<longleftrightarrow> off = i_data_end b)"
proof -
  from blk have range: "0 \<le> i" "i < vlc_array_count (block_array (p_sys s))"
    by (auto simp: vlc_array_item_at_index_def split: if_splits)
  have grow: "grow_array (block_array (p_sys s)) i = block_array (p_sys s)"
    using range by (simp add: grow_array_covered)
  have same: "(b\<lparr>i_data_end := off\<rparr> = b) = (off = i_data_end b)"
    by (cases b) auto
  show ?thesis
    using blk grow same prepare_block_inside [OF inside]
    by (simp add: worker_prepare_def Let_def i [symmetric] off [symmetric] vlc_array_set_def)
qed

theorem prepare_inside_range_truncates_witness:
  "block_array (p_sys (worker_prepare True inside_state))
     = [Some \<lparr>i_block_size = 4194304, i_data_begin = 0, i_data_end = 5\<rparr>]
   \<and> w_block_offset (prebuffer_thread (p_sys (worker_prepare True inside_state))) = 5"
proof -
  have blk: "vlc_array_item_at_index (block_array (p_sys inside_state)) 0 = Some (Some inside_block)"
    by (simp add: inside_state_def vlc_array_item_at_index_def vlc_array_count_def)
  have i: "0 = int_of_u64 (w_prebuffer_offset (prebuffer_thread (p_sys inside_state)) div 4194304)"
    by (simp add: inside_state_def int_of_u64_def)
  have off: "5 = int_of_u64 (w_prebuffer_offset (prebuffer_thread (p_sys inside_state)) mod 4194304)"
    by (simp add: inside_state_def int_of_u64_def)
  have inside: "i_data_begin inside_block \<le> 5" "5 \<le> i_data_end inside_block"
    by (simp_all add: inside_block_def)
  show ?thesis
    using prepare_inside_range_truncates [OF blk i off inside, of True]
    by (simp add: inside_state_def inside_block_def)
qed

theorem prepare_inside_range_counterexample:
  "vlc_array_item_at_index (block_array (p_sys inside_state)) 0 = Some (Some inside_block)
   \<and> i_data_begin inside_block \<le> 5 \<and> 5 \<le> i_data_end inside_block
   \<and> w_prebuffer_offset (prebuffer_thread (p_sys inside_state)) mod 4194304 = 5
   \<and> block_array (p_sys (worker_step stub_ops True inside_state)) \<noteq> block_array (p_sys inside_state)
   \<and> vlc_array_item_at_index (block_array (p_sys (worker_step stub_ops True inside_state))) 0
       = Some (Some (inside_block\<lparr>i_data_end := 5\<rparr>))"
  by code_simp

section \<open>The queries of Control\<close>

text \<open>
  C2. The query \<^verbatim>\<open>STREAM_GET_PREBUFFER_FINISHED\<close> has no case in the switch of
  \<^verbatim>\<open>Control\<close>: in every state the call takes the default branch, returns the generic
  error, writes nothing through its argument and leaves the state alone, whatever
  \<open>b_buffered_eos\<close> is.
\<close>

theorem Control_GET_PREBUFFER_FINISHED_is_default:
  "Control ops ws s STREAM_GET_PREBUFFER_FINISHED = Return (VLC_EGENERIC, No_out, s)
   \<and> Control ops ws s STREAM_GET_PREBUFFER_FINISHED = Control ops ws s STREAM_OTHER_QUERY
   \<and> VLC_EGENERIC \<noteq> VLC_SUCCESS"
  by (simp add: Control_def VLC_EGENERIC_def VLC_SUCCESS_def)

section \<open>Seeking\<close>

lemma signal_wait_rewind_fields [simp]:
  "i_stream_offset (p_sys (signal_wait_rewind s)) = i_stream_offset (p_sys s)"
  "i_prebuffer_offset (p_sys (signal_wait_rewind s)) = i_prebuffer_offset (p_sys s)"
  "b_buffered_eos (p_sys (signal_wait_rewind s)) = b_buffered_eos (p_sys s)"
  "block_array (p_sys (signal_wait_rewind s)) = block_array (p_sys s)"
  "b_error (p_sys (signal_wait_rewind s)) = b_error (p_sys s)"
  "b_close (p_sys (signal_wait_rewind s)) = b_close (p_sys s)"
  "i_stream_size (p_sys (signal_wait_rewind s)) = i_stream_size (p_sys s)"
  "p_source (signal_wait_rewind s) = p_source s"
  by (simp_all add: signal_wait_rewind_def)

lemma Control_outside_window:
  "b_can_seek (p_sys s) \<Longrightarrow> \<not> short_seek s p \<Longrightarrow>
   Control ops ws s (STREAM_SET_POSITION p) = Control_seek_locked ops s p"
  by (auto simp: Control_def short_seek_def)

lemma Control_inside_window:
  "b_can_seek (p_sys s) \<Longrightarrow> short_seek s p \<Longrightarrow>
   safe_WaitFillData ws s (u32_of_int (int_of_u64 (p - i_stream_offset (p_sys s))))
     = Return (ready, s1) \<Longrightarrow>
   Control ops ws s (STREAM_SET_POSITION p)
     = (if ready \<le> 0 then Return (ready, No_out, s1) else Control_seek_locked ops s1 p)"
  by (simp add: Control_def short_seek_def)

lemma Control_seek_locked_buffered:
  "unsafe_FindRewindBufferedPosition (p_sys s) p = Return r \<Longrightarrow>
   p \<le> i_prebuffer_offset (p_sys s) \<Longrightarrow> p < r \<Longrightarrow>
   Control_seek_locked ops s p
     = Return (VLC_SUCCESS, No_out,
         signal_wait_rewind (s\<lparr>p_sys := (p_sys s)\<lparr>i_stream_offset := p\<rparr>\<rparr>))"
  by (simp add: Control_seek_locked_def)

lemma Control_seek_locked_source:
  assumes find: "unsafe_FindRewindBufferedPosition (p_sys s) p = Return r"
    and unbuffered: "\<not> (p \<le> i_prebuffer_offset (p_sys s) \<and> p < r)"
    and seek: "stream_Seek ops (p_source s) r = (ret, src')"
  shows "\<exists>ret' s'. Control_seek_locked ops s p = Return (ret', No_out, s')
           \<and> p_source s' = src'
           \<and> i_prebuffer_offset (p_sys s') = stream_Tell ops src'
           \<and> \<not> b_buffered_eos (p_sys s')
           \<and> b_error (p_sys s') = b_error (p_sys s)
           \<and> block_array (p_sys s') = block_array (p_sys s)
           \<and> (if p \<le> stream_Tell ops src'
                then i_stream_offset (p_sys s') = p \<and> ret' = ret
              else if i_stream_offset (p_sys s) > stream_Tell ops src'
                then i_stream_offset (p_sys s') = stream_Tell ops src' \<and> ret' = VLC_EGENERIC
              else i_stream_offset (p_sys s') = i_stream_offset (p_sys s) \<and> ret' = ret)"
  using find unbuffered seek
  by (auto simp: Control_seek_locked_def Let_def)

text \<open>
  C4 (as amended). For every seek target \<open>p\<close> on a seekable source with
  \<open>prebuffer_offset < p < prebuffer_offset + SHORT_SEEK_RANGE\<close>, \<open>Seek(p)\<close> first waits
  for \<open>p - stream_offset\<close> bytes. If that wait returns a count that is not positive,
  the call returns the count and does nothing else. If it returns a positive count and
  \<open>p\<close> then is at most the prebuffer offset and inside buffered data
  (\<open>p < FindContiguousEnd(p)\<close>), the call sets \<open>stream_offset := p\<close>, returns success
  and does not touch the source.
\<close>

theorem short_seek_served_by_waiting:
  assumes seekable: "b_can_seek (p_sys s)"
    and window: "short_seek s p"
    and wait: "safe_WaitFillData ws s (u32_of_int (int_of_u64 (p - i_stream_offset (p_sys s))))
                 = Return (ready, s1)"
  shows "(ready \<le> 0 \<longrightarrow> Control ops ws s (STREAM_SET_POSITION p) = Return (ready, No_out, s1))
       \<and> (0 < ready \<longrightarrow> p \<le> i_prebuffer_offset (p_sys s1) \<longrightarrow>
            unsafe_FindRewindBufferedPosition (p_sys s1) p = Return r \<longrightarrow> p < r \<longrightarrow>
              Control ops ws s (STREAM_SET_POSITION p)
                = Return (VLC_SUCCESS, No_out,
                    signal_wait_rewind (s1\<lparr>p_sys := (p_sys s1)\<lparr>i_stream_offset := p\<rparr>\<rparr>))
              \<and> p_source (signal_wait_rewind (s1\<lparr>p_sys := (p_sys s1)\<lparr>i_stream_offset := p\<rparr>\<rparr>))
                  = p_source s1)"
  using Control_inside_window [OF seekable window wait, of ops]
  by (simp add: Control_seek_locked_buffered)

theorem short_seek_served_by_waiting_witness:
  "b_can_seek (p_sys opened) \<and> short_seek opened 10000
   \<and> Control stub_ops [id, worker_run stub_ops 6] opened (STREAM_SET_POSITION 10000)
       = Return (VLC_SUCCESS, No_out,
           filled_once\<lparr>p_sys := (p_sys filled_once)\<lparr>i_stream_offset := 10000\<rparr>\<rparr>)
   \<and> stub_seeks (p_source filled_once) = 0"
proof -
  have seekable: "b_can_seek (p_sys opened)"
    by code_simp
  have window: "short_seek opened 10000"
    by code_simp
  have wait: "safe_WaitFillData [id, worker_run stub_ops 6] opened
                (u32_of_int (int_of_u64 (10000 - i_stream_offset (p_sys opened))))
                = Return (10000, filled_once)"
    by code_simp
  have frontier: "10000 \<le> i_prebuffer_offset (p_sys filled_once)"
    by code_simp
  have find: "unsafe_FindRewindBufferedPosition (p_sys filled_once) 10000 = Return 16384"
    by code_simp
  have awake: "signal_wait_rewind (filled_once\<lparr>p_sys := (p_sys filled_once)\<lparr>i_stream_offset := 10000\<rparr>\<rparr>)
                 = filled_once\<lparr>p_sys := (p_sys filled_once)\<lparr>i_stream_offset := 10000\<rparr>\<rparr>"
    by code_simp
  have calls: "stub_seeks (p_source filled_once) = 0"
    by code_simp
  show ?thesis
    using short_seek_served_by_waiting [OF seekable window wait, of stub_ops 16384]
      seekable window frontier find awake calls
    by simp
qed

theorem short_seek_counterexample:
  "b_can_seek (p_sys opened) \<and> short_seek opened 16384
   \<and> stub_seeks (p_source opened) = 0
   \<and> Control stub_ops [id, worker_run stub_ops 6] opened (STREAM_SET_POSITION 16384)
       = Return (VLC_SUCCESS, No_out,
           filled_once\<lparr>p_sys := (p_sys filled_once)\<lparr>i_stream_offset := 16384\<rparr>,
                       p_source := (p_source filled_once)\<lparr>stub_seeks := 1\<rparr>\<rparr>)"
  by code_simp

text \<open>
  C5 (as amended). For every \<open>Seek(p)\<close> on a seekable source that reaches the locked
  part of the seek (at once, or after a short-forward wait that returned a positive count)
  and does not land inside buffered contiguous data, the cache seeks the source to the
  rewind target, sets \<open>prebuffer_offset\<close> to \<open>actual := source.tell()\<close> and clears
  \<open>buffered_eos\<close>. Then, if \<open>p \<le> actual\<close> it sets \<open>stream_offset := p\<close> and returns
  what the seek of the source returned; else if \<open>stream_offset > actual\<close> it sets
  \<open>stream_offset := actual\<close> and returns failure; else it leaves \<open>stream_offset\<close> and
  returns what the seek of the source returned. The error flag and the blocks are
  not changed.
\<close>

theorem seek_through_source:
  assumes seekable: "b_can_seek (p_sys s)"
    and reach: "(\<not> short_seek s p \<and> s1 = s)
                \<or> (short_seek s p
                    \<and> safe_WaitFillData ws s
                         (u32_of_int (int_of_u64 (p - i_stream_offset (p_sys s))))
                        = Return (ready, s1)
                    \<and> 0 < ready)"
    and find: "unsafe_FindRewindBufferedPosition (p_sys s1) p = Return r"
    and unbuffered: "\<not> (p \<le> i_prebuffer_offset (p_sys s1) \<and> p < r)"
    and seek: "stream_Seek ops (p_source s1) r = (ret, src')"
  shows "\<exists>ret' s'. Control ops ws s (STREAM_SET_POSITION p) = Return (ret', No_out, s')
           \<and> p_source s' = src'
           \<and> i_prebuffer_offset (p_sys s') = stream_Tell ops src'
           \<and> \<not> b_buffered_eos (p_sys s')
           \<and> b_error (p_sys s') = b_error (p_sys s1)
           \<and> block_array (p_sys s') = block_array (p_sys s1)
           \<and> (if p \<le> stream_Tell ops src'
                then i_stream_offset (p_sys s') = p \<and> ret' = ret
              else if i_stream_offset (p_sys s1) > stream_Tell ops src'
                then i_stream_offset (p_sys s') = stream_Tell ops src' \<and> ret' = VLC_EGENERIC
              else i_stream_offset (p_sys s') = i_stream_offset (p_sys s1) \<and> ret' = ret)"
proof -
  have "Control ops ws s (STREAM_SET_POSITION p) = Control_seek_locked ops s1 p"
    using reach
  proof
    assume "\<not> short_seek s p \<and> s1 = s"
    then show ?thesis
      using seekable by (simp add: Control_outside_window)
  next
    assume inside: "short_seek s p
      \<and> safe_WaitFillData ws s (u32_of_int (int_of_u64 (p - i_stream_offset (p_sys s))))
          = Return (ready, s1)
      \<and> 0 < ready"
    then show ?thesis
      using seekable by (simp add: Control_inside_window)
  qed
  then show ?thesis
    using Control_seek_locked_source [OF find unbuffered seek] by simp
qed

theorem seek_through_source_witness:
  "b_can_seek (p_sys filled_once) \<and> \<not> short_seek filled_once 8388613
   \<and> unsafe_FindRewindBufferedPosition (p_sys filled_once) 8388613 = Return 8388613
   \<and> (\<exists>s'. Control stub_ops [] filled_once (STREAM_SET_POSITION 8388613)
               = Return (VLC_SUCCESS, No_out, s')
            \<and> stub_pos (p_source s') = 8388613
            \<and> i_prebuffer_offset (p_sys s') = 8388613
            \<and> i_stream_offset (p_sys s') = 8388613
            \<and> \<not> b_buffered_eos (p_sys s'))"
proof -
  have seekable: "b_can_seek (p_sys filled_once)"
    by code_simp
  have outside: "\<not> short_seek filled_once 8388613"
    by code_simp
  have find: "unsafe_FindRewindBufferedPosition (p_sys filled_once) 8388613 = Return 8388613"
    by code_simp
  have unbuffered: "\<not> (8388613 \<le> i_prebuffer_offset (p_sys filled_once)
                        \<and> (8388613 :: u64) < 8388613)"
    by simp
  have seek: "stream_Seek stub_ops (p_source filled_once) 8388613
                = (VLC_SUCCESS, (p_source filled_once)\<lparr>stub_pos := 8388613, stub_seeks := 1\<rparr>)"
    by code_simp
  have tell: "stream_Tell stub_ops src = stub_pos src" for src
    by (simp add: stub_ops_def)
  have reach: "(\<not> short_seek filled_once 8388613 \<and> filled_once = filled_once)
     \<or> (short_seek filled_once 8388613
         \<and> safe_WaitFillData [] filled_once
              (u32_of_int (int_of_u64 (8388613 - i_stream_offset (p_sys filled_once))))
             = Return (0, filled_once)
         \<and> (0::int) < 0)"
    using outside by simp
  show ?thesis
    using seek_through_source [OF seekable reach find unbuffered seek] seekable outside find
    by (auto simp: tell)
qed

theorem seek_through_source_counterexample:
  "b_can_seek (p_sys opened_seek_fails) \<and> \<not> short_seek opened_seek_fails 0
   \<and> unsafe_FindRewindBufferedPosition (p_sys opened_seek_fails) 0 = Return 0
   \<and> Control stub_ops [] opened_seek_fails (STREAM_SET_POSITION 0)
       = Return (VLC_EGENERIC, No_out,
           opened_seek_fails\<lparr>p_source := (p_source opened_seek_fails)\<lparr>stub_seeks := 1\<rparr>\<rparr>)
   \<and> 0 \<le> stream_Tell stub_ops ((p_source opened_seek_fails)\<lparr>stub_seeks := 1\<rparr>)
   \<and> VLC_EGENERIC \<noteq> VLC_SUCCESS"
  by code_simp

text \<open>
  C7 (as amended). In every state of a seekable cache with
  \<open>stream_offset \<le> prebuffer_offset\<close> in which the byte at \<open>stream_offset\<close> is
  buffered (\<open>stream_offset < FindContiguousEnd(stream_offset)\<close>), \<open>Seek(stream_offset)\<close>
  returns success and changes none of \<open>stream_offset\<close>, \<open>prebuffer_offset\<close>,
  \<open>buffered_eos\<close>, the blocks and the source; it only signals the rewind condition.
\<close>

theorem Seek_to_buffered_stream_offset_is_noop:
  assumes seekable: "b_can_seek (p_sys s)"
    and behind: "i_stream_offset (p_sys s) \<le> i_prebuffer_offset (p_sys s)"
    and find: "unsafe_FindRewindBufferedPosition (p_sys s) (i_stream_offset (p_sys s)) = Return r"
    and buffered: "i_stream_offset (p_sys s) < r"
  shows "Control ops ws s (STREAM_SET_POSITION (i_stream_offset (p_sys s)))
           = Return (VLC_SUCCESS, No_out, signal_wait_rewind s)
         \<and> i_stream_offset (p_sys (signal_wait_rewind s)) = i_stream_offset (p_sys s)
         \<and> i_prebuffer_offset (p_sys (signal_wait_rewind s)) = i_prebuffer_offset (p_sys s)
         \<and> b_buffered_eos (p_sys (signal_wait_rewind s)) = b_buffered_eos (p_sys s)
         \<and> block_array (p_sys (signal_wait_rewind s)) = block_array (p_sys s)
         \<and> p_source (signal_wait_rewind s) = p_source s"
proof -
  have "\<not> i_stream_offset (p_sys s) > i_prebuffer_offset (p_sys s)"
    using behind by simp
  then show ?thesis
    using seekable behind find buffered
    by (simp add: Control_def Control_seek_locked_def)
qed

theorem Seek_to_buffered_stream_offset_is_noop_witness:
  "b_can_seek (p_sys filled_once)
   \<and> i_stream_offset (p_sys filled_once) \<le> i_prebuffer_offset (p_sys filled_once)
   \<and> unsafe_FindRewindBufferedPosition (p_sys filled_once) (i_stream_offset (p_sys filled_once))
       = Return 16384
   \<and> i_stream_offset (p_sys filled_once) < 16384
   \<and> Control stub_ops [] filled_once (STREAM_SET_POSITION (i_stream_offset (p_sys filled_once)))
       = Return (VLC_SUCCESS, No_out, filled_once)"
proof -
  have seekable: "b_can_seek (p_sys filled_once)"
    by code_simp
  have behind: "i_stream_offset (p_sys filled_once) \<le> i_prebuffer_offset (p_sys filled_once)"
    by code_simp
  have find: "unsafe_FindRewindBufferedPosition (p_sys filled_once)
                (i_stream_offset (p_sys filled_once)) = Return 16384"
    by code_simp
  have buffered: "i_stream_offset (p_sys filled_once) < 16384"
    by code_simp
  have awake: "signal_wait_rewind filled_once = filled_once"
    by code_simp
  show ?thesis
    using Seek_to_buffered_stream_offset_is_noop [OF seekable behind find buffered, of stub_ops "[]"]
      seekable behind find buffered
    by (simp add: awake)
qed

theorem Seek_to_stream_offset_counterexample:
  "b_can_seek (p_sys small_read_all)
   \<and> i_stream_offset (p_sys small_read_all) = 10
   \<and> b_buffered_eos (p_sys small_read_all)
   \<and> stub_seeks (p_source small_read_all) = 0
   \<and> Control stub_ops [] small_read_all (STREAM_SET_POSITION 10)
       = Return (VLC_SUCCESS, No_out,
           small_read_all\<lparr>p_sys := (p_sys small_read_all)\<lparr>
               b_buffered_eos := False,
               prebuffer_thread := (prebuffer_thread (p_sys small_read_all))\<lparr>pc := W_Sample\<rparr>\<rparr>,
             p_source := (p_source small_read_all)\<lparr>stub_seeks := 1\<rparr>\<rparr>)"
  by code_simp

section \<open>The end-of-stream flag\<close>

lemma wait_loop_inv:
  "wait_loop ws s n p = Return (r, ws', s') \<Longrightarrow> P s \<Longrightarrow> (\<forall>w\<in>set ws. \<forall>t. P t \<longrightarrow> P (w t)) \<Longrightarrow>
   P s' \<and> set ws' \<subseteq> set ws"
proof (induction "length ws" arbitrary: ws s p rule: less_induct)
  case less
  let ?s1 = "overtaken ws s"
  have s1: "P ?s1"
    using less.prems(2,3) by (cases ws) (simp_all add: overtaken_def)
  have rest: "set (tl ws) \<subseteq> set ws"
    by (cases ws) auto
  note unfold = wait_loop.simps [of ws s n p]
  consider (test) "s' = s" "ws' = ws"
    | (flag) "s' = ?s1" "ws' = tl ws"
    | (sleep) w ws2 where "tl ws = w # ws2"
        "wait_loop ws2 (w ?s1) n (i_prebuffer_offset (p_sys (w ?s1))) = Return (r, ws', s')"
  proof (cases "\<not> i_stream_offset (p_sys s) + u64_of_u32 n > p")
    case True
    then have "s' = s" "ws' = ws"
      using less.prems(1) unfold by simp_all
    then show ?thesis by (rule that(1))
  next
    case wait: False
    show ?thesis
    proof (cases "b_error (p_sys ?s1) \<or> b_close (p_sys ?s1) \<or> b_buffered_eos (p_sys ?s1)")
      case True
      then have "s' = ?s1" "ws' = tl ws"
        using less.prems(1) wait unfold by (auto simp: Let_def split: if_splits)
      then show ?thesis by (rule that(2))
    next
      case False
      then have loop: "(case tl ws of [] \<Rightarrow> Blocked
                | w # ws2 \<Rightarrow> wait_loop ws2 (w ?s1) n (i_prebuffer_offset (p_sys (w ?s1))))
              = Return (r, ws', s')"
        using less.prems(1) wait unfold by (simp add: Let_def)
      then obtain w ws2 where "tl ws = w # ws2"
        by (cases "tl ws") simp_all
      then show ?thesis
        using loop that(3) by simp
    qed
  qed
  then show ?case
  proof cases
    case test
    then show ?thesis using less.prems(2) by simp
  next
    case flag
    then show ?thesis using s1 rest by simp
  next
    case sleep
    have len: "length ws2 < length ws"
      using sleep(1) by (cases ws) auto
    have sub: "set (w # ws2) \<subseteq> set ws"
      using sleep(1) rest by simp
    then have Pw: "P (w ?s1)"
      using s1 less.prems(3) by simp
    have env: "\<forall>w\<in>set ws2. \<forall>t. P t \<longrightarrow> P (w t)"
      using less.prems(3) sub by auto
    have "P s' \<and> set ws' \<subseteq> set ws2"
      using less.hyps [OF len sleep(2) Pw env] .
    then show ?thesis
      using sub by auto
  qed
qed

lemma overtaken_inv:
  "P s \<Longrightarrow> (\<forall>w\<in>set ws. \<forall>t. P t \<longrightarrow> P (w t)) \<Longrightarrow> P (overtaken ws s)"
  by (cases ws) (simp_all add: overtaken_def)

lemma safe_WaitFillData_inv:
  assumes "safe_WaitFillData ws s n = Return (r, s')" "P s" "\<forall>w\<in>set ws. \<forall>t. P t \<longrightarrow> P (w t)"
  shows "P s'"
proof -
  consider (now) "s' = s"
    | (failed) c c' ws1 s1 p where "wait_loop ws s c p = Return (c', ws1, s1)" "s' = overtaken ws1 s1"
    using assms(1)
    by (auto simp: safe_WaitFillData_def Let_def bind_result_Return split: if_splits)
  then show ?thesis
  proof cases
    case now
    then show ?thesis using assms(2) by simp
  next
    case failed
    from wait_loop_inv [OF failed(1) assms(2,3)]
    have "P s1" "\<forall>w\<in>set ws1. \<forall>t. P t \<longrightarrow> P (w t)"
      using assms(3) by auto
    then show ?thesis
      unfolding failed(2) by (rule overtaken_inv)
  qed
qed

lemma Read_inv:
  assumes "Read ws s b n = Return (r, s')" "eos_implies_end (p_sys s)"
     "\<forall>w\<in>set ws. \<forall>t. eos_implies_end (p_sys t) \<longrightarrow> eos_implies_end (p_sys (w t))"
  shows "eos_implies_end (p_sys s')"
proof -
  from assms(1) obtain r1 s1 where w: "safe_WaitFillData ws s n = Return (r1, s1)"
    and rest: "b_buffered_eos (p_sys s') = b_buffered_eos (p_sys s1)"
       "i_stream_size (p_sys s') = i_stream_size (p_sys s1)"
       "i_prebuffer_offset (p_sys s') = i_prebuffer_offset (p_sys s1)"
    by (auto simp: Read_def bind_result_Return split: if_splits)
  have "eos_implies_end (p_sys s1)"
    using safe_WaitFillData_inv [OF w, of "\<lambda>t. eos_implies_end (p_sys t)"] assms(2,3) by simp
  then show ?thesis
    using rest by (simp add: eos_implies_end_def)
qed

lemma peek_Alloc_fields:
  "peek_Alloc m sys n = Return (b, sys2) \<Longrightarrow>
     b_buffered_eos sys2 = b_buffered_eos sys \<and> i_stream_size sys2 = i_stream_size sys
     \<and> i_prebuffer_offset sys2 = i_prebuffer_offset sys"
  by (auto simp: peek_Alloc_def peek_Free_def split: if_splits)

lemma Peek_inv:
  assumes "Peek m ws s b n = Return (r, ptr, s')" "eos_implies_end (p_sys s)"
     "\<forall>w\<in>set ws. \<forall>t. eos_implies_end (p_sys t) \<longrightarrow> eos_implies_end (p_sys (w t))"
  shows "eos_implies_end (p_sys s')"
proof -
  from assms(1) obtain r1 s1 where w: "safe_WaitFillData ws s n = Return (r1, s1)"
    and k: "s' = s1 \<or> (\<exists>b sys2. peek_Alloc m (p_sys s1) r1 = Return (b, sys2) \<and> s' = s1\<lparr>p_sys := sys2\<rparr>)"
    by (auto simp: Peek_def bind_result_Return Let_def split: if_splits option.splits)
  have "eos_implies_end (p_sys s1)"
    using safe_WaitFillData_inv [OF w, of "\<lambda>t. eos_implies_end (p_sys t)"] assms(2,3) by simp
  then show ?thesis
    using k by (auto simp: eos_implies_end_def dest!: peek_Alloc_fields)
qed

lemma Control_seek_locked_inv:
  assumes "Control_seek_locked ops s p = Return (r, out, s')" "eos_implies_end (p_sys s)"
  shows "eos_implies_end (p_sys s')"
  using assms
  by (auto simp: Control_seek_locked_def bind_result_Return Let_def eos_implies_end_def
        split: if_splits prod.splits)

lemma Control_inv:
  assumes "Control ops ws s q = Return (r, out, s')" "eos_implies_end (p_sys s)"
     "\<forall>w\<in>set ws. \<forall>t. eos_implies_end (p_sys t) \<longrightarrow> eos_implies_end (p_sys (w t))"
  shows "eos_implies_end (p_sys s')"
proof (cases q)
  case (STREAM_SET_POSITION p)
  show ?thesis
  proof (cases "b_can_seek (p_sys s) \<and> short_seek s p")
    case True
    with assms(1) STREAM_SET_POSITION obtain r1 s1 where
      w: "safe_WaitFillData ws s (u32_of_int (int_of_u64 (p - i_stream_offset (p_sys s)))) = Return (r1, s1)"
      and rest: "(r1 \<le> 0 \<and> s' = s1) \<or> Control_seek_locked ops s1 p = Return (r, out, s')"
      by (auto simp: Control_def short_seek_def bind_result_Return split: if_splits)
    have "eos_implies_end (p_sys s1)"
      using safe_WaitFillData_inv [OF w, of "\<lambda>t. eos_implies_end (p_sys t)"] assms(2,3) by simp
    then show ?thesis
      using rest by (auto dest: Control_seek_locked_inv)
  next
    case False
    with assms(1) STREAM_SET_POSITION
    have "s' = s \<or> Control_seek_locked ops s p = Return (r, out, s')"
      by (auto simp: Control_def short_seek_def split: if_splits)
    then show ?thesis
      using assms(2) by (auto dest: Control_seek_locked_inv)
  qed
qed (use assms in \<open>auto simp: Control_def\<close>)

lemma worker_step_inv:
  assumes inv: "eos_implies_end (p_sys s)"
    and range: "unat (i_prebuffer_offset (p_sys s)) < 2 ^ 63"
    and ret: "w_read_ret (prebuffer_thread (p_sys s)) \<le> INT_MAX"
    and current: "pc (prebuffer_thread (p_sys s)) = W_Check \<longrightarrow>
       w_prebuffer_offset (prebuffer_thread (p_sys s)) = i_prebuffer_offset (p_sys s)"
  shows "eos_implies_end (p_sys (worker_step ops malloc_ok s))"
proof (cases "pc (prebuffer_thread (p_sys s))")
  case W_Prepare
  then show ?thesis
    using inv
    by (auto simp: worker_step_def worker_prepare_def Let_def set_worker_def eos_implies_end_def
          split: option.splits)
next
  case W_Commit
  have "eos_implies_end (p_sys (worker_commit s))"
    using inv range ret
    by (auto simp: worker_commit_def Let_def set_worker_def eos_implies_end_def
          le_add_read split: option.splits)
  then show ?thesis
    using W_Commit by (simp add: worker_step_def)
next
  case W_Read
  then show ?thesis
    using inv
    by (auto simp: worker_step_def Let_def set_worker_def eos_implies_end_def split: prod.splits)
qed (use inv current in \<open>auto simp: worker_step_def Let_def set_worker_def eos_implies_end_def
          split: option.splits\<close>)

text \<open>
  C8 (as amended). The implication \<open>buffered_eos \<Longrightarrow> prebuffer_offset \<ge> size\<close> is kept
  by \<^verbatim>\<open>Read\<close>, by \<^verbatim>\<open>Peek\<close> and by every query of \<^verbatim>\<open>Control\<close>, provided that
  what the rest of the system does while they wait keeps it; and it is kept by every step
  of the worker, provided that the end-of-stream test of the worker runs on a sample of
  the prebuffer offset that is still current (and that the prebuffer offset is below
  \<open>2 ^ 63\<close> and the count of the last read is a C \<^verbatim>\<open>int\<close>). The converse is not
  an invariant: from the commit that brings the prebuffer offset to the size until the
  next end-of-stream test of the worker, the flag is still off.
\<close>

theorem eos_implies_end_preserved:
  assumes inv: "eos_implies_end (p_sys s)"
  shows "(unat (i_prebuffer_offset (p_sys s)) < 2 ^ 63 \<longrightarrow>
          w_read_ret (prebuffer_thread (p_sys s)) \<le> INT_MAX \<longrightarrow>
          (pc (prebuffer_thread (p_sys s)) = W_Check \<longrightarrow>
             w_prebuffer_offset (prebuffer_thread (p_sys s)) = i_prebuffer_offset (p_sys s)) \<longrightarrow>
          eos_implies_end (p_sys (worker_step ops malloc_ok s)))
       \<and> ((\<forall>w\<in>set ws. \<forall>t. eos_implies_end (p_sys t) \<longrightarrow> eos_implies_end (p_sys (w t))) \<longrightarrow>
            (\<forall>r s'. Read ws s p_buffer n = Return (r, s') \<longrightarrow> eos_implies_end (p_sys s'))
          \<and> (\<forall>r ptr s'. Peek malloc_ok ws s pp_peek n = Return (r, ptr, s')
                \<longrightarrow> eos_implies_end (p_sys s'))
          \<and> (\<forall>r out s'. Control ops ws s q = Return (r, out, s')
                \<longrightarrow> eos_implies_end (p_sys s')))"
  using inv
  by (auto intro: worker_step_inv dest: Read_inv Peek_inv Control_inv)

theorem eos_implies_end_preserved_witness:
  "pc (prebuffer_thread (p_sys small_sampled)) = W_Check
   \<and> b_buffered_eos (p_sys (worker_step stub_ops True small_sampled))
   \<and> i_stream_size (p_sys (worker_step stub_ops True small_sampled))
       \<le> i_prebuffer_offset (p_sys (worker_step stub_ops True small_sampled))
   \<and> b_buffered_eos (p_sys small_at_eos)
   \<and> Read [] small_at_eos True 10 = Return (10, small_read_all)
   \<and> b_buffered_eos (p_sys small_read_all)
   \<and> i_stream_size (p_sys small_read_all) \<le> i_prebuffer_offset (p_sys small_read_all)"
proof -
  have inv1: "eos_implies_end (p_sys small_sampled)"
    by code_simp
  have "i_prebuffer_offset (p_sys small_sampled) = 10"
    by code_simp
  then have range: "unat (i_prebuffer_offset (p_sys small_sampled)) < 2 ^ 63"
    by simp
  have ret: "w_read_ret (prebuffer_thread (p_sys small_sampled)) \<le> INT_MAX"
    by code_simp
  have at_check: "pc (prebuffer_thread (p_sys small_sampled)) = W_Check"
    by code_simp
  have current: "w_prebuffer_offset (prebuffer_thread (p_sys small_sampled))
                   = i_prebuffer_offset (p_sys small_sampled)"
    by code_simp
  have marked: "b_buffered_eos (p_sys (worker_step stub_ops True small_sampled))"
    by code_simp
  have inv2: "eos_implies_end (p_sys small_at_eos)"
    by code_simp
  have flag: "b_buffered_eos (p_sys small_at_eos)"
    by code_simp
  have read: "Read [] small_at_eos True 10 = Return (10, small_read_all)"
    by code_simp
  have flag': "b_buffered_eos (p_sys small_read_all)"
    by code_simp
  have "eos_implies_end (p_sys (worker_step stub_ops True small_sampled))"
    using eos_implies_end_preserved [OF inv1, of stub_ops True] range ret current by simp
  moreover have "eos_implies_end (p_sys small_read_all)"
    using eos_implies_end_preserved [OF inv2, of _ _ "[]" True 10] read by simp
  ultimately show ?thesis
    using at_check marked flag read flag' by (simp add: eos_implies_end_def)
qed

theorem eos_iff_end_counterexample:
  "pc (prebuffer_thread (p_sys small_filled)) = W_Fill
   \<and> i_stream_size (p_sys small_filled) = 10
   \<and> i_prebuffer_offset (p_sys small_filled) = 10
   \<and> \<not> b_buffered_eos (p_sys small_filled)
   \<and> \<not> (b_buffered_eos (p_sys small_filled)
          \<longleftrightarrow> i_prebuffer_offset (p_sys small_filled) \<ge> i_stream_size (p_sys small_filled))"
  by code_simp

text \<open>
  Why the end-of-stream test needs a current sample: the worker samples the prebuffer
  offset under the lock, releases the lock, and sets the flag under the lock again without
  looking at the offset. A seek between the two leaves the flag on with the prebuffer
  offset at 0, the worker parked, and the next \<^verbatim>\<open>Read\<close> returning 0.
\<close>

lemma eos_mark_races_with_seek:
  "pc (prebuffer_thread (p_sys tail_sampled)) = W_Check
   \<and> b_buffered_eos (p_sys raced)
   \<and> i_prebuffer_offset (p_sys raced) = 0
   \<and> i_stream_size (p_sys raced) = 12582912
   \<and> pc (prebuffer_thread (p_sys raced)) = W_Park
   \<and> Read [] raced True 5 = Return (0, raced)"
  by code_simp

section \<open>The assertions of unsafe_fetchData\<close>

text \<open>
  C10. A state that the filter reaches: the first 16 KiB are buffered, the reader seeks
  into the third block, the worker buffers 16 KiB there, and the reader seeks back to
  position 10. The seek back keeps the prebuffer offset in the third block, although the
  second block was never allocated. \<^verbatim>\<open>safe_WaitFillData\<close> then grants 20000 bytes at
  once, and \<^verbatim>\<open>unsafe_fetchData\<close> stops at \<^verbatim>\<open>assert( p_block )\<close>.
\<close>

theorem fetchData_assert_fails_after_seek_back:
  "i_stream_offset (p_sys back_seeked) = 10
   \<and> i_prebuffer_offset (p_sys back_seeked) = 8404997
   \<and> block_array (p_sys back_seeked)
       = [Some \<lparr>i_block_size = 4194304, i_data_begin = 0, i_data_end = 16384\<rparr>,
          None,
          Some \<lparr>i_block_size = 4194304, i_data_begin = 0, i_data_end = 16389\<rparr>]
   \<and> safe_WaitFillData [] back_seeked 20000 = Return (20000, back_seeked)
   \<and> i_stream_offset (p_sys back_seeked) + u64_of_u32 20000
       \<le> i_prebuffer_offset (p_sys back_seeked)
   \<and> unsafe_fetchData (p_sys back_seeked) 20000 = Assert_fail
   \<and> Read [] back_seeked True 20000 = Assert_fail"
  by code_simp

section \<open>Waiting for data\<close>

lemma uint_u64_of_u32 [simp]: "uint (u64_of_u32 n) = uint n"
  by (simp add: u64_of_u32_def uint_up_ucast is_up)

lemma uint_u32_of_int:
  assumes "0 \<le> k" "k < 2 ^ 32"
  shows "uint (u32_of_int k) = k"
  using assms by (simp add: u32_of_int_def uint_word_of_int)

lemma int64_of_u64_small:
  assumes "uint d < 2 ^ 63"
  shows "int64_of_u64 d = uint d"
proof -
  have lo: "- (2 ^ 63) \<le> uint d"
    by (rule order_trans [of _ 0]) simp_all
  have "sint d = signed_take_bit 63 (uint d)"
    by (simp add: sint_uint)
  also have "\<dots> = uint d"
    by (rule signed_take_bit_int_eq_self [OF lo assms])
  finally show ?thesis
    by (simp add: int64_of_u64_def)
qed

lemma uint_clamp_read:
  assumes "uint d < 2 ^ 63"
  shows "uint (clamp_read n d) = min (uint n) (uint d)"
proof (cases "uint n > uint d")
  case True
  have "uint d < 2 ^ 32"
    using True uint_lt2p [of n] by simp
  then have "uint (u32_of_int (uint d)) = uint d"
    by (intro uint_u32_of_int) simp_all
  then show ?thesis
    using True by (simp add: clamp_read_def int64_of_u64_small [OF assms])
next
  case False
  then show ?thesis
    by (simp add: clamp_read_def int64_of_u64_small [OF assms])
qed

lemma uint_gap:
  fixes so po :: u64
  assumes "so \<le> po" "uint po < 2 ^ 63"
  shows "uint (po - so) = uint po - uint so" "uint (po - so) < 2 ^ 63"
proof -
  show eq: "uint (po - so) = uint po - uint so"
    using assms(1) by (simp add: uint_sub_lem [THEN iffD1] word_le_def)
  show "uint (po - so) < 2 ^ 63"
    unfolding eq using assms(2) uint_ge_0 [of so] by linarith
qed

lemma enough_iff:
  assumes "uint (i_stream_offset (p_sys s)) < 2 ^ 63"
  shows "enough s n \<longleftrightarrow>
     uint (i_stream_offset (p_sys s)) + uint n \<le> uint (i_prebuffer_offset (p_sys s))"
proof -
  have "uint (i_stream_offset (p_sys s)) + uint (u64_of_u32 n) < 2 ^ 63 + 2 ^ 32"
    using assms uint_lt2p [of n] by simp
  then have "uint (i_stream_offset (p_sys s)) + uint (u64_of_u32 n) < 2 ^ LENGTH(64)"
    by simp
  then have "uint (i_stream_offset (p_sys s) + u64_of_u32 n)
               = uint (i_stream_offset (p_sys s)) + uint (u64_of_u32 n)"
    by (simp only: uint_add_lem)
  then show ?thesis
    by (simp add: enough_def word_le_def)
qed

lemma int_of_u32_small:
  assumes "uint n \<le> INT_MAX"
  shows "int_of_u32 n = uint n"
proof -
  have lo: "- (2 ^ 31) \<le> uint n"
    by (rule order_trans [of _ 0]) simp_all
  have hi: "uint n < 2 ^ 31"
    using assms by (simp add: INT_MAX_def)
  have "sint n = signed_take_bit 31 (uint n)"
    by (simp add: sint_uint)
  also have "\<dots> = uint n"
    by (rule signed_take_bit_int_eq_self [OF lo hi])
  finally show ?thesis
    by (simp add: int_of_u32_def)
qed

lemma overtaken_observed:
  "overtaken (drop k ws) (observed ws s k) = observed ws s (Suc k)"
proof (induction ws s k rule: observed.induct)
  case (1 ws s)
  then show ?case
    by (cases ws) (simp_all add: overtaken_def)
next
  case (2 s k)
  then show ?case
    by (simp add: overtaken_def)
next
  case (3 w ws s k)
  then show ?case
    by simp
qed

lemma wait_loop_round:
  assumes "\<not> enough s n" "\<not> flagged (a s)"
  shows "wait_loop (a # b # ws) s n (i_prebuffer_offset (p_sys s))
           = wait_loop ws (b (a s)) n (i_prebuffer_offset (p_sys (b (a s))))"
  using assms
  by (subst wait_loop.simps) (simp add: enough_def flagged_def overtaken_def Let_def not_less)

lemma rounds_shift:
  assumes "\<forall>j<Suc k. \<not> enough (observed (a # b # ws) s (2 * j)) n
                     \<and> \<not> flagged (observed (a # b # ws) s (Suc (2 * j)))"
  shows "\<not> enough s n" "\<not> flagged (a s)"
    "\<forall>j<k. \<not> enough (observed ws (b (a s)) (2 * j)) n
             \<and> \<not> flagged (observed ws (b (a s)) (Suc (2 * j)))"
proof -
  from assms have "\<not> enough (observed (a # b # ws) s (2 * 0)) n
      \<and> \<not> flagged (observed (a # b # ws) s (Suc (2 * 0)))"
    by blast
  then show "\<not> enough s n" "\<not> flagged (a s)"
    by simp_all
  show "\<forall>j<k. \<not> enough (observed ws (b (a s)) (2 * j)) n
             \<and> \<not> flagged (observed ws (b (a s)) (Suc (2 * j)))"
  proof (intro allI impI)
    fix j assume "j < k"
    then have "Suc j < Suc k" by simp
    with assms have "\<not> enough (observed (a # b # ws) s (2 * Suc j)) n
      \<and> \<not> flagged (observed (a # b # ws) s (Suc (2 * Suc j)))"
      by blast
    then show "\<not> enough (observed ws (b (a s)) (2 * j)) n
             \<and> \<not> flagged (observed ws (b (a s)) (Suc (2 * j)))"
      by simp
  qed
qed

lemma two_spans:
  assumes "2 * Suc k \<le> length ws"
  obtains a b ws' where "ws = a # b # ws'" "2 * k \<le> length ws'"
proof -
  from assms obtain a ws1 where 1: "ws = a # ws1"
    by (cases ws) auto
  with assms obtain b ws' where 2: "ws1 = b # ws'"
    by (cases ws1) auto
  show ?thesis
    using that [of a b ws'] 1 2 assms by simp
qed

lemma wait_loop_at_snapshot:
  "2 * k \<le> length ws \<Longrightarrow>
   (\<forall>j<k. \<not> enough (observed ws s (2 * j)) n \<and> \<not> flagged (observed ws s (Suc (2 * j)))) \<Longrightarrow>
   enough (observed ws s (2 * k)) n \<Longrightarrow>
   wait_loop ws s n (i_prebuffer_offset (p_sys s))
     = Return (n, drop (2 * k) ws, observed ws s (2 * k))"
proof (induction k arbitrary: ws s)
  case 0
  then show ?case
    by (subst wait_loop.simps) (simp add: enough_def not_less)
next
  case (Suc k)
  from Suc.prems(1) obtain a b ws' where ws: "ws = a # b # ws'" and len: "2 * k \<le> length ws'"
    by (rule two_spans)
  note shift = rounds_shift [OF Suc.prems(2) [unfolded ws]]
  have after: "enough (observed ws' (b (a s)) (2 * k)) n"
    using Suc.prems(3) by (simp add: ws)
  show ?case
    unfolding ws wait_loop_round [where a = a and b = b and ws = ws', OF shift(1,2)]
    by (simp add: Suc.IH [OF len shift(3) after])
qed

lemma wait_loop_at_flags:
  "2 * k \<le> length ws \<Longrightarrow>
   (\<forall>j<k. \<not> enough (observed ws s (2 * j)) n \<and> \<not> flagged (observed ws s (Suc (2 * j)))) \<Longrightarrow>
   \<not> enough (observed ws s (2 * k)) n \<Longrightarrow> flagged (observed ws s (Suc (2 * k))) \<Longrightarrow>
   wait_loop ws s n (i_prebuffer_offset (p_sys s))
     = Return (if b_error (p_sys (observed ws s (Suc (2 * k))))
                  \<or> b_close (p_sys (observed ws s (Suc (2 * k)))) then n
               else clamp_read n (i_prebuffer_offset (p_sys (observed ws s (2 * k)))
                                   - i_stream_offset (p_sys (observed ws s (Suc (2 * k))))),
               drop (Suc (2 * k)) ws, observed ws s (Suc (2 * k)))"
proof (induction k arbitrary: ws s)
  case 0
  have next_state: "overtaken ws s = observed ws s (Suc 0)"
    using overtaken_observed [of 0 ws s] by simp
  have rest: "tl ws = drop (Suc 0) ws"
    by (simp add: drop_Suc)
  from 0 show ?case
    by (subst wait_loop.simps)
       (auto simp: enough_def flagged_def not_less Let_def next_state rest)
next
  case (Suc k)
  from Suc.prems(1) obtain a b ws' where ws: "ws = a # b # ws'" and len: "2 * k \<le> length ws'"
    by (rule two_spans)
  note shift = rounds_shift [OF Suc.prems(2) [unfolded ws]]
  have after: "\<not> enough (observed ws' (b (a s)) (2 * k)) n"
      "flagged (observed ws' (b (a s)) (Suc (2 * k)))"
    using Suc.prems(3,4) by (simp_all add: ws)
  show ?case
    unfolding ws wait_loop_round [where a = a and b = b and ws = ws', OF shift(1,2)]
    by (simp add: Suc.IH [OF len shift(3) after])
qed

lemma wait_loop_never:
  "(\<forall>k. 2 * k \<le> length ws \<longrightarrow>
        \<not> enough (observed ws s (2 * k)) n \<and> \<not> flagged (observed ws s (Suc (2 * k)))) \<Longrightarrow>
   wait_loop ws s n (i_prebuffer_offset (p_sys s)) = Blocked"
proof (induction "length ws" arbitrary: ws s rule: less_induct)
  case less
  from less.prems have "\<not> enough (observed ws s (2 * 0)) n
      \<and> \<not> flagged (observed ws s (Suc (2 * 0)))"
    by (intro less.prems [rule_format]) simp
  moreover have "overtaken ws s = observed ws s (Suc 0)"
    using overtaken_observed [of 0 ws s] by simp
  ultimately have first: "\<not> enough s n" "\<not> flagged (overtaken ws s)"
    by simp_all
  show ?case
  proof (cases "tl ws")
    case Nil
    then show ?thesis
      using first
      by (subst wait_loop.simps) (simp add: enough_def flagged_def not_less Let_def)
  next
    case (Cons b ws')
    then obtain a where ws: "ws = a # b # ws'"
      by (cases ws) auto
    have first': "\<not> flagged (a s)"
      using first(2) by (simp add: ws overtaken_def)
    have later: "\<forall>k. 2 * k \<le> length ws' \<longrightarrow>
        \<not> enough (observed ws' (b (a s)) (2 * k)) n
        \<and> \<not> flagged (observed ws' (b (a s)) (Suc (2 * k)))"
    proof (intro allI impI)
      fix k assume "2 * k \<le> length ws'"
      then have "2 * Suc k \<le> length ws"
        by (simp add: ws)
      with less.prems have "\<not> enough (observed ws s (2 * Suc k)) n
        \<and> \<not> flagged (observed ws s (Suc (2 * Suc k)))"
        by blast
      then show "\<not> enough (observed ws' (b (a s)) (2 * k)) n
        \<and> \<not> flagged (observed ws' (b (a s)) (Suc (2 * k)))"
        by (simp add: ws)
    qed
    have "length ws' < length ws"
      by (simp add: ws)
    then have "wait_loop ws' (b (a s)) n (i_prebuffer_offset (p_sys (b (a s)))) = Blocked"
      using later by (rule less.hyps)
    then show ?thesis
      unfolding ws wait_loop_round [where a = a and b = b and ws = ws', OF first(1) first'] .
  qed
qed

lemma safe_WaitFillData_at_eos:
  assumes eos: "b_buffered_eos (p_sys s)"
    and range: "uint (i_prebuffer_offset (p_sys s)) < 2 ^ 63"
    and small: "uint n \<le> INT_MAX"
  shows "safe_WaitFillData ws s n
           = Return (min (uint n)
                (max 0 (uint (i_prebuffer_offset (p_sys s)) - uint (i_stream_offset (p_sys s)))), s)"
proof (cases "i_stream_offset (p_sys s) \<ge> i_prebuffer_offset (p_sys s)")
  case True
  then have "uint (i_prebuffer_offset (p_sys s)) - uint (i_stream_offset (p_sys s)) \<le> 0"
    by (simp add: word_le_def)
  then have "min (uint n)
      (max 0 (uint (i_prebuffer_offset (p_sys s)) - uint (i_stream_offset (p_sys s)))) = 0"
    by simp
  moreover have "safe_WaitFillData ws s n = Return (int_of_u32 0, s)"
    using eos True by (simp add: safe_WaitFillData_def)
  ultimately show ?thesis
    by (simp add: int_of_u32_def)
next
  case False
  let ?so = "i_stream_offset (p_sys s)" and ?po = "i_prebuffer_offset (p_sys s)"
  let ?c = "clamp_read n (?po - ?so)"
  have le: "?so \<le> ?po"
    using False by simp
  have gap: "uint (?po - ?so) = uint ?po - uint ?so" "uint (?po - ?so) < 2 ^ 63"
    using uint_gap [OF le range] by simp_all
  have c: "uint ?c = min (uint n) (uint ?po - uint ?so)"
    using uint_clamp_read [OF gap(2)] gap(1) by simp
  have pos: "0 \<le> uint ?po - uint ?so"
    using le by (simp add: word_le_def)
  have so_small: "uint ?so < 2 ^ 63"
    using le range by (simp add: word_le_def)
  have "enough s ?c"
    unfolding enough_iff [OF so_small] c by simp
  then have "safe_WaitFillData ws s n = Return (int_of_u32 ?c, s)"
    using eos False by (simp add: safe_WaitFillData_def enough_def Let_def)
  moreover have "uint ?c \<le> INT_MAX"
    using c small by simp
  then have "int_of_u32 ?c = uint ?c"
    by (rule int_of_u32_small)
  ultimately show ?thesis
    using c pos by simp
qed

lemma safe_WaitFillData_loop:
  assumes "\<not> b_buffered_eos (p_sys s)" "n \<noteq> 0" "\<not> enough s n"
  shows "safe_WaitFillData ws s n
      = bind_result (wait_loop ws s n (i_prebuffer_offset (p_sys s)))
          (\<lambda>(i_read', ws', s').
             if b_error (p_sys (overtaken ws' s')) \<or> b_close (p_sys (overtaken ws' s'))
             then Return (- 1, overtaken ws' s')
             else Return (int_of_u32 i_read', overtaken ws' s'))"
  using assms by (simp add: safe_WaitFillData_def enough_def Let_def)

lemma safe_WaitFillData_enough_later:
  assumes no_eos: "\<not> b_buffered_eos (p_sys s)" and n: "n \<noteq> 0" and small: "uint n \<le> INT_MAX"
    and k: "0 < k" "2 * k \<le> length ws"
    and before: "\<forall>j<k. \<not> enough (observed ws s (2 * j)) n
                        \<and> \<not> flagged (observed ws s (Suc (2 * j)))"
    and after: "enough (observed ws s (2 * k)) n"
  shows "safe_WaitFillData ws s n
           = Return (if b_error (p_sys (observed ws s (Suc (2 * k))))
                        \<or> b_close (p_sys (observed ws s (Suc (2 * k)))) then - 1 else uint n,
                     observed ws s (Suc (2 * k)))"
proof -
  from before k(1) have "\<not> enough (observed ws s (2 * 0)) n"
    by blast
  then have start: "\<not> enough s n"
    by simp
  note loop = safe_WaitFillData_loop [OF no_eos n start]
  note trace = wait_loop_at_snapshot [OF k(2) before after]
  note last = overtaken_observed [of "2 * k" ws s]
  show ?thesis
    by (simp add: loop trace last int_of_u32_small [OF small])
qed

lemma safe_WaitFillData_flagged:
  assumes no_eos: "\<not> b_buffered_eos (p_sys s)" and n: "n \<noteq> 0" and small: "uint n \<le> INT_MAX"
    and k: "2 * k \<le> length ws"
    and before: "\<forall>j<k. \<not> enough (observed ws s (2 * j)) n
                        \<and> \<not> flagged (observed ws s (Suc (2 * j)))"
    and short: "\<not> enough (observed ws s (2 * k)) n"
    and flag: "flagged (observed ws s (Suc (2 * k)))"
    and latched: "b_error (p_sys (observed ws s (Suc (2 * k))))
                    \<or> b_close (p_sys (observed ws s (Suc (2 * k)))) \<longrightarrow>
                  b_error (p_sys (observed ws s (Suc (Suc (2 * k)))))
                    \<or> b_close (p_sys (observed ws s (Suc (Suc (2 * k)))))"
  shows "if b_error (p_sys (observed ws s (Suc (Suc (2 * k)))))
            \<or> b_close (p_sys (observed ws s (Suc (Suc (2 * k)))))
         then safe_WaitFillData ws s n = Return (- 1, observed ws s (Suc (Suc (2 * k))))
         else i_prebuffer_offset (p_sys (observed ws s (2 * k)))
                = i_prebuffer_offset (p_sys (observed ws s (Suc (2 * k)))) \<longrightarrow>
              i_stream_offset (p_sys (observed ws s (2 * k)))
                = i_stream_offset (p_sys (observed ws s (Suc (2 * k)))) \<longrightarrow>
              i_stream_offset (p_sys (observed ws s (Suc (2 * k))))
                \<le> i_prebuffer_offset (p_sys (observed ws s (Suc (2 * k)))) \<longrightarrow>
              uint (i_prebuffer_offset (p_sys (observed ws s (Suc (2 * k))))) < 2 ^ 63 \<longrightarrow>
              safe_WaitFillData ws s n
                = Return (uint (i_prebuffer_offset (p_sys (observed ws s (Suc (2 * k)))))
                            - uint (i_stream_offset (p_sys (observed ws s (Suc (2 * k))))),
                          observed ws s (Suc (Suc (2 * k))))"
proof -
  let ?T = "observed ws s (2 * k)" and ?F = "observed ws s (Suc (2 * k))"
    and ?U = "observed ws s (Suc (Suc (2 * k)))"
  let ?c = "if b_error (p_sys ?F) \<or> b_close (p_sys ?F) then n
            else clamp_read n (i_prebuffer_offset (p_sys ?T) - i_stream_offset (p_sys ?F))"
  have start: "\<not> enough s n"
  proof (cases k)
    case 0
    then show ?thesis using short by simp
  next
    case (Suc k')
    then have "\<not> enough (observed ws s (2 * 0)) n"
      using before by blast
    then show ?thesis by simp
  qed
  note loop = safe_WaitFillData_loop [OF no_eos n start]
  note trace = wait_loop_at_flags [OF k before short flag]
  note last = overtaken_observed [of "Suc (2 * k)" ws s]
  have result: "safe_WaitFillData ws s n
      = (if b_error (p_sys ?U) \<or> b_close (p_sys ?U) then Return (- 1, ?U)
         else Return (int_of_u32 ?c, ?U))"
    by (simp add: loop trace last)
  show ?thesis
  proof (cases "b_error (p_sys ?U) \<or> b_close (p_sys ?U)")
    case True
    then show ?thesis
      by (simp add: result)
  next
    case False
    then have no_flag: "\<not> (b_error (p_sys ?F) \<or> b_close (p_sys ?F))"
      using latched by blast
    have "safe_WaitFillData ws s n
            = Return (uint (i_prebuffer_offset (p_sys ?F)) - uint (i_stream_offset (p_sys ?F)), ?U)"
      if same: "i_prebuffer_offset (p_sys ?T) = i_prebuffer_offset (p_sys ?F)"
          "i_stream_offset (p_sys ?T) = i_stream_offset (p_sys ?F)"
        and le: "i_stream_offset (p_sys ?F) \<le> i_prebuffer_offset (p_sys ?F)"
        and range: "uint (i_prebuffer_offset (p_sys ?F)) < 2 ^ 63"
    proof -
      let ?so = "i_stream_offset (p_sys ?F)" and ?po = "i_prebuffer_offset (p_sys ?F)"
      have gap: "uint (?po - ?so) = uint ?po - uint ?so" "uint (?po - ?so) < 2 ^ 63"
        using uint_gap [OF le range] by simp_all
      have so_small: "uint (i_stream_offset (p_sys ?T)) < 2 ^ 63"
        using le range same(2) by (simp add: word_le_def)
      have less: "uint ?po - uint ?so < uint n"
        using short unfolding enough_iff [OF so_small] same by simp
      then have c: "uint (clamp_read n (?po - ?so)) = uint ?po - uint ?so"
        using uint_clamp_read [OF gap(2), of n] gap(1) by simp
      then have "uint (clamp_read n (?po - ?so)) \<le> INT_MAX"
        using less small by simp
      then have "int_of_u32 (clamp_read n (?po - ?so)) = uint ?po - uint ?so"
        using c by (simp add: int_of_u32_small)
      then show ?thesis
        using False no_flag same(1) by (simp add: result)
    qed
    then show ?thesis
      using False by simp
  qed
qed

lemma safe_WaitFillData_blocked:
  assumes no_eos: "\<not> b_buffered_eos (p_sys s)" and n: "n \<noteq> 0"
    and never: "\<forall>k. 2 * k \<le> length ws \<longrightarrow>
                  \<not> enough (observed ws s (2 * k)) n
                  \<and> \<not> flagged (observed ws s (Suc (2 * k)))"
  shows "safe_WaitFillData ws s n = Blocked"
proof -
  have "\<not> enough (observed ws s (2 * 0)) n"
    using never by (intro never [rule_format, THEN conjunct1]) simp
  then have start: "\<not> enough s n"
    by simp
  show ?thesis
    by (simp add: safe_WaitFillData_loop [OF no_eos n start] wait_loop_never [OF never])
qed

text \<open>
  C3 (as amended). A request of \<open>n \<le> INT_MAX\<close> bytes by \<^verbatim>\<open>Read\<close> or \<^verbatim>\<open>Peek\<close>
  goes through \<^verbatim>\<open>safe_WaitFillData\<close>. If \<open>buffered_eos\<close> is set on entry, the call
  returns at once the request clamped to \<open>max(0, prebuffer_offset - stream_offset)\<close>,
  which is 0 when nothing is left. Otherwise a request of 0 returns 0, a request with
  \<open>stream_offset + n \<le> prebuffer_offset\<close> returns \<open>n\<close> at once, and any other request
  waits: in each round the call reads the prebuffer offset under its lock, then the flags,
  then sleeps. It leaves the wait in the first round in which the bytes are there or a flag
  is up, and returns \<open>-1\<close> when error or closing is up at its last read of these two
  flags (which stay up once they are up); else \<open>n\<close> when the bytes are there; else,
  \<open>buffered_eos\<close> being up and nothing having moved the prebuffer offset since the call
  read it, \<open>prebuffer_offset - stream_offset\<close>. If no such round comes, the call stays
  blocked.
\<close>

theorem safe_WaitFillData_outcome:
  assumes small: "uint n \<le> INT_MAX"
  shows
  "(b_buffered_eos (p_sys s) \<longrightarrow> uint (i_prebuffer_offset (p_sys s)) < 2 ^ 63 \<longrightarrow>
      safe_WaitFillData ws s n
        = Return (min (uint n)
            (max 0 (uint (i_prebuffer_offset (p_sys s)) - uint (i_stream_offset (p_sys s)))), s))
   \<and> (\<not> b_buffered_eos (p_sys s) \<longrightarrow> n = 0 \<longrightarrow> safe_WaitFillData ws s n = Return (0, s))
   \<and> (\<not> b_buffered_eos (p_sys s) \<longrightarrow> n \<noteq> 0 \<longrightarrow> enough s n \<longrightarrow>
        safe_WaitFillData ws s n = Return (uint n, s))
   \<and> (\<not> b_buffered_eos (p_sys s) \<longrightarrow> n \<noteq> 0 \<longrightarrow> 0 < k \<longrightarrow> 2 * k \<le> length ws \<longrightarrow>
        (\<forall>j<k. \<not> enough (observed ws s (2 * j)) n \<and> \<not> flagged (observed ws s (2 * j + 1))) \<longrightarrow>
        enough (observed ws s (2 * k)) n \<longrightarrow>
        safe_WaitFillData ws s n
          = Return (if b_error (p_sys (observed ws s (2 * k + 1)))
                       \<or> b_close (p_sys (observed ws s (2 * k + 1))) then - 1 else uint n,
                    observed ws s (2 * k + 1)))
   \<and> (\<not> b_buffered_eos (p_sys s) \<longrightarrow> n \<noteq> 0 \<longrightarrow> 2 * k \<le> length ws \<longrightarrow>
        (\<forall>j<k. \<not> enough (observed ws s (2 * j)) n \<and> \<not> flagged (observed ws s (2 * j + 1))) \<longrightarrow>
        \<not> enough (observed ws s (2 * k)) n \<longrightarrow> flagged (observed ws s (2 * k + 1)) \<longrightarrow>
        (b_error (p_sys (observed ws s (2 * k + 1))) \<or> b_close (p_sys (observed ws s (2 * k + 1))) \<longrightarrow>
         b_error (p_sys (observed ws s (2 * k + 2))) \<or> b_close (p_sys (observed ws s (2 * k + 2)))) \<longrightarrow>
        (if b_error (p_sys (observed ws s (2 * k + 2))) \<or> b_close (p_sys (observed ws s (2 * k + 2)))
         then safe_WaitFillData ws s n = Return (- 1, observed ws s (2 * k + 2))
         else i_prebuffer_offset (p_sys (observed ws s (2 * k)))
                = i_prebuffer_offset (p_sys (observed ws s (2 * k + 1))) \<longrightarrow>
              i_stream_offset (p_sys (observed ws s (2 * k)))
                = i_stream_offset (p_sys (observed ws s (2 * k + 1))) \<longrightarrow>
              i_stream_offset (p_sys (observed ws s (2 * k + 1)))
                \<le> i_prebuffer_offset (p_sys (observed ws s (2 * k + 1))) \<longrightarrow>
              uint (i_prebuffer_offset (p_sys (observed ws s (2 * k + 1)))) < 2 ^ 63 \<longrightarrow>
              safe_WaitFillData ws s n
                = Return (uint (i_prebuffer_offset (p_sys (observed ws s (2 * k + 1))))
                            - uint (i_stream_offset (p_sys (observed ws s (2 * k + 1)))),
                          observed ws s (2 * k + 2))))
   \<and> (\<not> b_buffered_eos (p_sys s) \<longrightarrow> n \<noteq> 0 \<longrightarrow>
        (\<forall>k. 2 * k \<le> length ws \<longrightarrow>
           \<not> enough (observed ws s (2 * k)) n \<and> \<not> flagged (observed ws s (2 * k + 1))) \<longrightarrow>
        safe_WaitFillData ws s n = Blocked)"
  (is "?at_eos \<and> ?nothing \<and> ?at_once \<and> ?later \<and> ?flagged \<and> ?blocked")
proof (intro conjI)
  show ?at_eos
    using safe_WaitFillData_at_eos [OF _ _ small, where s = s and ws = ws] by blast
  show ?nothing
    by (simp add: safe_WaitFillData_def int_of_u32_def)
  show ?at_once
    by (simp add: safe_WaitFillData_def enough_def Let_def int_of_u32_small [OF small])
  show ?later
    using safe_WaitFillData_enough_later [OF _ _ small, where s = s and k = k and ws = ws] by simp
  show ?flagged
    using safe_WaitFillData_flagged [OF _ _ small, where s = s and k = k and ws = ws] by simp
  show ?blocked
    using safe_WaitFillData_blocked [where s = s and ws = ws and n = n] by simp
qed

theorem safe_WaitFillData_outcome_witness:
  "uint (100 :: u32) \<le> INT_MAX \<and> uint (16384 :: u32) \<le> INT_MAX
   \<and> b_buffered_eos (p_sys small_at_eos)
   \<and> safe_WaitFillData [] small_at_eos 100 = Return (10, small_at_eos)
   \<and> \<not> b_buffered_eos (p_sys opened)
   \<and> safe_WaitFillData [] opened 0 = Return (0, opened)
   \<and> \<not> b_buffered_eos (p_sys filled_once) \<and> enough filled_once 16384
   \<and> safe_WaitFillData [] filled_once 16384 = Return (16384, filled_once)
   \<and> \<not> enough opened 16384 \<and> \<not> flagged opened
   \<and> safe_WaitFillData [id, worker_run stub_ops 6] opened 16384 = Return (16384, filled_once)
   \<and> safe_WaitFillData [error_raised] opened 16384 = Return (- 1, error_raised opened)
   \<and> \<not> b_buffered_eos (p_sys small_opened) \<and> \<not> enough small_at_eos 100
   \<and> safe_WaitFillData [id, worker_run stub_ops 9] small_opened 100 = Return (10, small_at_eos)
   \<and> safe_WaitFillData [] opened 5 = Blocked"
proof -
  have small: "uint (100 :: u32) \<le> INT_MAX" "uint (16384 :: u32) \<le> INT_MAX"
      "uint (0 :: u32) \<le> INT_MAX" "uint (5 :: u32) \<le> INT_MAX"
    by (simp_all add: INT_MAX_def)
  have eos: "b_buffered_eos (p_sys small_at_eos)"
    by code_simp
  have offsets: "i_prebuffer_offset (p_sys small_at_eos) = 10"
      "i_stream_offset (p_sys small_at_eos) = 0"
    by code_simp+
  have no_eos: "\<not> b_buffered_eos (p_sys opened)"
    by code_simp
  have a: "safe_WaitFillData [] small_at_eos 100 = Return (10, small_at_eos)"
    using safe_WaitFillData_outcome [OF small(1), where s = small_at_eos and ws = "[]"] eos
    by (simp add: offsets)
  have z: "safe_WaitFillData [] opened 0 = Return (0, opened)"
    using safe_WaitFillData_outcome [OF small(3), where s = opened and ws = "[]"] no_eos
    by simp
  have no_eos_f: "\<not> b_buffered_eos (p_sys filled_once)"
    by code_simp
  have there: "enough filled_once 16384"
    by code_simp
  have o: "safe_WaitFillData [] filled_once 16384 = Return (16384, filled_once)"
    using safe_WaitFillData_outcome [OF small(2), where s = filled_once and ws = "[]"]
      no_eos_f there
    by simp
  have first: "\<not> enough opened 16384" "\<not> flagged opened"
    by code_simp+
  have no_flag: "\<not> (b_error (p_sys filled_once) \<or> b_close (p_sys filled_once))"
    by code_simp
  have obs: "observed [id, worker_run stub_ops 6] opened 2 = filled_once"
      "observed [id, worker_run stub_ops 6] opened 3 = filled_once"
    by (simp_all add: filled_once_def numeral_2_eq_2 numeral_3_eq_3)
  have b: "safe_WaitFillData [id, worker_run stub_ops 6] opened 16384 = Return (16384, filled_once)"
    using safe_WaitFillData_outcome
            [OF small(2), where s = opened and ws = "[id, worker_run stub_ops 6]" and k = 1]
      no_eos first there no_flag
    by (simp add: obs)
  have seen: "b_error (p_sys (error_raised opened))"
    by (simp add: error_raised_def)
  have obs_e: "observed [error_raised] opened 2 = error_raised opened"
    by (simp add: numeral_2_eq_2)
  have e: "safe_WaitFillData [error_raised] opened 16384 = Return (- 1, error_raised opened)"
    using safe_WaitFillData_outcome
            [OF small(2), where s = opened and ws = "[error_raised]" and k = 0]
      no_eos first seen
    by (simp add: obs_e flagged_def)
  have no_eos_s: "\<not> b_buffered_eos (p_sys small_opened)"
    by code_simp
  have first_s: "\<not> enough small_opened 100" "\<not> flagged small_opened"
    by code_simp+
  have short_s: "\<not> enough small_at_eos 100"
    by code_simp
  have no_flag_s: "\<not> (b_error (p_sys small_at_eos) \<or> b_close (p_sys small_at_eos))"
    by code_simp
  have obs_s: "observed [id, worker_run stub_ops 9] small_opened 2 = small_at_eos"
      "observed [id, worker_run stub_ops 9] small_opened 3 = small_at_eos"
      "observed [id, worker_run stub_ops 9] small_opened 4 = small_at_eos"
    by (simp_all add: small_at_eos_def eval_nat_numeral)
  have f: "safe_WaitFillData [id, worker_run stub_ops 9] small_opened 100
             = Return (10, small_at_eos)"
    using safe_WaitFillData_outcome
            [OF small(1), where s = small_opened and ws = "[id, worker_run stub_ops 9]" and k = 1]
      no_eos_s first_s short_s no_flag_s eos
    by (simp add: obs_s flagged_def offsets)
  have never: "\<not> enough opened 5"
    by code_simp
  have d: "safe_WaitFillData [] opened 5 = Blocked"
    using safe_WaitFillData_outcome [OF small(4), where s = opened and ws = "[]"]
      no_eos never first(2)
    by simp
  show ?thesis
    using small eos a no_eos z no_eos_f there o first b e no_eos_s short_s f d by simp
qed

text \<open>
  Beyond \<open>INT_MAX\<close> the count does not come back: it is returned as a C \<^verbatim>\<open>int\<close>. With
  4 GiB buffered and no flag up, a request of \<open>2 ^ 32 - 1\<close> bytes is covered, and the call
  returns \<open>-1\<close>, which \<^verbatim>\<open>Read\<close> hands on.
\<close>

theorem safe_WaitFillData_counterexample:
  "\<not> b_buffered_eos (p_sys four_gib_buffered)
   \<and> \<not> b_error (p_sys four_gib_buffered) \<and> \<not> b_close (p_sys four_gib_buffered)
   \<and> i_stream_offset (p_sys four_gib_buffered) = 0
   \<and> i_prebuffer_offset (p_sys four_gib_buffered) = 4294967296
   \<and> enough four_gib_buffered 4294967295
   \<and> safe_WaitFillData [] four_gib_buffered 4294967295 = Return (- 1, four_gib_buffered)
   \<and> Read [] four_gib_buffered True 4294967295 = Return (- 1, four_gib_buffered)"
  by code_simp

text \<open>
  Why the clamp needs a prebuffer offset that nothing has moved: the loop reads
  \<^verbatim>\<open>b_buffered_eos\<close> without a lock, after it has read the prebuffer offset into its
  local. A worker that commits the last bytes and sets the flag in between makes the call
  clamp against the old value. On a source of 10 bytes just opened, \<^verbatim>\<open>Read\<close> of 100
  bytes then returns 0 while the 10 bytes are buffered.
\<close>

lemma stale_snapshot_clamp:
  "\<not> b_buffered_eos (p_sys small_opened)
   \<and> worker_run stub_ops 9 small_opened = small_at_eos
   \<and> i_stream_offset (p_sys small_at_eos) = 0
   \<and> i_prebuffer_offset (p_sys small_at_eos) = 10
   \<and> safe_WaitFillData [worker_run stub_ops 9] small_opened 100 = Return (0, small_at_eos)
   \<and> Read [worker_run stub_ops 9] small_opened True 100 = Return (0, small_at_eos)"
  by code_simp

section \<open>The end of the buffered run\<close>

lemma int_of_u64_small:
  assumes "uint w < 2 ^ 31"
  shows "int_of_u64 w = uint w"
proof -
  have lo: "- (2 ^ 31) \<le> uint w"
    by (rule order_trans [of _ 0]) simp_all
  have "sint (ucast w :: 32 word) = signed_take_bit 31 (uint w)"
    by (simp add: signed_ucast_eq)
  also have "\<dots> = uint w"
    by (rule signed_take_bit_int_eq_self [OF lo assms])
  finally show ?thesis
    by (simp add: int_of_u64_def)
qed

lemma uint_u64_of_int:
  assumes "0 \<le> k" "k < 2 ^ 64"
  shows "uint (u64_of_int k) = k"
  using assms by (simp add: u64_of_int_def uint_word_of_int)

lemma uint_block_pos:
  assumes "0 \<le> i" "i < 2 ^ 31" "0 \<le> e" "e \<le> 4194304"
  shows "uint (u64_of_int i * 4194304 + u64_of_int e) = i * 4194304 + e"
proof -
  have eq: "u64_of_int i * 4194304 + u64_of_int e = u64_of_int (i * 4194304 + e)"
    by (simp add: u64_of_int_def)
  have "i * 4194304 \<le> (2 ^ 31 - 1) * 4194304"
    using assms by (intro mult_right_mono) simp_all
  then have "i * 4194304 + e < 2 ^ 64"
    using assms by simp
  moreover have "0 \<le> i * 4194304 + e"
    using assms by simp
  ultimately show ?thesis
    unfolding eq by (intro uint_u64_of_int)
qed

lemma uint_div_block: "uint (p div 4194304 :: u64) = uint p div 4194304"
  by (simp add: uint_div)

lemma uint_mod_block: "uint (p mod 4194304 :: u64) = uint p mod 4194304"
  by (simp add: uint_mod)


lemma block_div_mod:
  fixes i off :: int
  assumes "0 \<le> off" "off < 4194304"
  shows "(i * 4194304 + off) div 4194304 = i" "(i * 4194304 + off) mod 4194304 = off"
  using assms by (simp_all add: div_pos_pos_trivial mod_pos_pos_trivial)

lemma buffered_at_block:
  assumes "0 \<le> i" "0 \<le> off" "off < 4194304"
  shows "buffered_at arr (i * 4194304 + off) \<longleftrightarrow>
           i < vlc_array_count arr
           \<and> (case arr ! nat i of None \<Rightarrow> False
               | Some b \<Rightarrow> i_data_begin b \<le> off \<and> off < i_data_end b)"
  using assms
  by (simp add: buffered_at_def BUFFER_BLOCK_SIZE_def block_div_mod split: option.split)

lemma blocks_wf_nth:
  assumes "blocks_wf arr" "0 \<le> i" "i < vlc_array_count arr" "arr ! nat i = Some b"
  shows "0 \<le> i_data_begin b \<and> i_data_begin b \<le> i_data_end b \<and> i_data_end b \<le> i_block_size b
         \<and> i_block_size b \<le> 4194304"
proof -
  have "nat i < length arr"
    using assms(2,3) by (simp add: vlc_array_count_def)
  then have "block_wf (arr ! nat i)"
    using assms(1) by (simp add: blocks_wf_def list_all_length)
  then show ?thesis
    using assms(4) by (simp add: block_wf_def BUFFER_BLOCK_SIZE_def)
qed

lemma covered_in_block:
  assumes i: "0 \<le> i" "i < vlc_array_count arr" and b: "arr ! nat i = Some b"
    and range: "i_data_begin b \<le> off" "0 \<le> off" "e \<le> i_data_end b" "e \<le> 4194304"
    and q: "i * 4194304 + off \<le> q" "q < i * 4194304 + e"
  shows "buffered_at arr q"
proof -
  define off' where "off' = q - i * 4194304"
  have q': "q = i * 4194304 + off'"
    by (simp add: off'_def)
  have "0 \<le> off'" "off' < 4194304" "i_data_begin b \<le> off'" "off' < i_data_end b"
    using range q by (simp_all add: off'_def)
  then show ?thesis
    unfolding q' using i b by (simp add: buffered_at_block)
qed

lemma FindRewind_loop_end:
  assumes wf: "blocks_wf arr" and count: "vlc_array_count arr \<le> INT_MAX"
  shows "0 \<le> i \<Longrightarrow> 0 \<le> off \<Longrightarrow> off < 4194304 \<Longrightarrow> uint rw = i * 4194304 + off \<Longrightarrow>
         \<exists>r. FindRewind_loop arr i off rw = Return r \<and> uint rw \<le> uint r
            \<and> (\<forall>q. uint rw \<le> q \<and> q < uint r \<longrightarrow> buffered_at arr q)
            \<and> \<not> buffered_at arr (uint r)"
proof (induction "nat (vlc_array_count arr - i)" arbitrary: i off rw rule: less_induct)
  case less
  note pre = less.prems
  have here: "buffered_at arr (uint rw) \<longleftrightarrow>
           i < vlc_array_count arr
           \<and> (case arr ! nat i of None \<Rightarrow> False
               | Some b \<Rightarrow> i_data_begin b \<le> off \<and> off < i_data_end b)"
    unfolding pre(4) using pre(1-3) by (rule buffered_at_block)
  show ?case
  proof (cases "i < vlc_array_count arr")
    case False
    then have "FindRewind_loop arr i off rw = Return rw"
      by (subst FindRewind_loop.simps) simp
    moreover have "\<not> buffered_at arr (uint rw)"
      using False here by simp
    ultimately show ?thesis
      by auto
  next
    case True
    then have item: "vlc_array_item_at_index arr i = Some (arr ! nat i)"
      using pre(1) by (simp add: vlc_array_item_at_index_def)
    show ?thesis
    proof (cases "arr ! nat i")
      case None
      then have "FindRewind_loop arr i off rw = Return rw"
        using True item by (subst FindRewind_loop.simps) simp
      moreover have "\<not> buffered_at arr (uint rw)"
        using None here by simp
      ultimately show ?thesis
        by auto
    next
      case (Some b)
      have wfb: "0 \<le> i_data_begin b" "i_data_begin b \<le> i_data_end b"
          "i_data_end b \<le> i_block_size b" "i_block_size b \<le> 4194304"
        using blocks_wf_nth [OF wf pre(1) True Some] by simp_all
      show ?thesis
      proof (cases "i_data_begin b \<le> off \<and> off < i_data_end b")
        case False
        then have "FindRewind_loop arr i off rw = Return rw"
          using True item Some by (subst FindRewind_loop.simps) auto
        moreover have "\<not> buffered_at arr (uint rw)"
          using False Some here by simp
        ultimately show ?thesis
          by auto
      next
        case inside: True
        let ?rw' = "u64_of_int i * u64_of_int BUFFER_BLOCK_SIZE + u64_of_int (i_data_end b)"
        have "i < 2 ^ 31"
          using True count by (simp add: INT_MAX_def)
        then have rw': "uint ?rw' = i * 4194304 + i_data_end b"
          using pre(1) wfb inside by (simp add: uint_block_pos)
        have first: "buffered_at arr q" if "uint rw \<le> q" "q < uint ?rw'" for q
          using that unfolding rw' pre(4)
          by (intro covered_in_block [OF pre(1) True Some, of off "i_data_end b"])
             (use inside pre wfb in simp_all)
        show ?thesis
        proof (cases "i_data_end b < BUFFER_BLOCK_SIZE")
          case short: True
          have "FindRewind_loop arr i off rw = Return ?rw'"
            using True item Some inside short by (subst FindRewind_loop.simps) auto
          moreover have "\<not> buffered_at arr (uint ?rw')"
            unfolding rw'
            using short Some wfb inside pre(1)
            by (subst buffered_at_block) (simp_all add: BUFFER_BLOCK_SIZE_def)
          moreover have "uint rw \<le> uint ?rw'"
            unfolding rw' pre(4) using inside by simp
          ultimately show ?thesis
            using first by auto
        next
          case full: False
          then have e: "i_data_end b = 4194304"
            using wfb by (simp add: BUFFER_BLOCK_SIZE_def)
          have step: "FindRewind_loop arr i off rw = FindRewind_loop arr (i + 1) 0 ?rw'"
            using True item Some inside full by (subst FindRewind_loop.simps) auto
          have next_pos: "uint ?rw' = (i + 1) * 4194304 + 0"
            using rw' e by (simp add: algebra_simps)
          have "nat (vlc_array_count arr - (i + 1)) < nat (vlc_array_count arr - i)"
            using True by simp
          from less.hyps [OF this _ _ _ next_pos]
          obtain r where r: "FindRewind_loop arr (i + 1) 0 ?rw' = Return r"
              "uint ?rw' \<le> uint r"
              "\<forall>q. uint ?rw' \<le> q \<and> q < uint r \<longrightarrow> buffered_at arr q"
              "\<not> buffered_at arr (uint r)"
            using pre(1) by auto
          have "uint rw \<le> uint ?rw'"
            unfolding rw' pre(4) using inside by simp
          then have "uint rw \<le> uint r"
            using r(2) by simp
          moreover have "buffered_at arr q" if "uint rw \<le> q" "q < uint r" for q
            using that first r(3) by (cases "q < uint ?rw'") auto
          ultimately show ?thesis
            using step r(1,4) by auto
        qed
      qed
    qed
  qed
qed

text \<open>
  C6 (as amended). For every well-formed block array of at most \<^verbatim>\<open>INT_MAX\<close> slots and
  every position \<open>p\<close> whose block index fits a C \<^verbatim>\<open>int\<close> (\<open>p < 2 ^ 53\<close>),
  \<^verbatim>\<open>unsafe_FindRewindBufferedPosition\<close> returns the furthest position \<open>r \<ge> p\<close>
  reachable from \<open>p\<close> without a gap: every position in \<open>[p, r)\<close> is buffered and \<open>r\<close>
  is not. So it returns \<open>p\<close> itself when the block at \<open>p\<close> is absent or does not
  cover \<open>p mod BLOCK_SIZE\<close>, and it crosses into the next block only over a block that
  is buffered up to \<open>BLOCK_SIZE\<close>.
\<close>

theorem FindRewind_contiguous_end:
  assumes wf: "blocks_wf (block_array sys)"
    and count: "vlc_array_count (block_array sys) \<le> INT_MAX"
    and index: "uint p div BUFFER_BLOCK_SIZE \<le> INT_MAX"
  shows "\<exists>r. unsafe_FindRewindBufferedPosition sys p = Return r \<and> p \<le> r
           \<and> (\<forall>q. uint p \<le> q \<and> q < uint r \<longrightarrow> buffered_at (block_array sys) q)
           \<and> \<not> buffered_at (block_array sys) (uint r)
           \<and> (\<not> buffered_at (block_array sys) (uint p) \<longrightarrow> r = p)"
proof -
  let ?i = "uint p div 4194304" and ?off = "uint p mod 4194304"
  have small: "uint (p div 4194304) < 2 ^ 31"
    using index by (simp add: uint_div INT_MAX_def BUFFER_BLOCK_SIZE_def)
  have i: "int_of_u64 (p div 4194304) = ?i"
    using int_of_u64_small [OF small] by (simp add: uint_div)
  have "uint (p mod 4194304) < 2 ^ 31"
    by (simp add: uint_mod)
  then have off: "int_of_u64 (p mod 4194304) = ?off"
    using int_of_u64_small by (simp add: uint_mod)
  have pos: "uint p = ?i * 4194304 + ?off"
    by simp
  have range: "0 \<le> ?i" "0 \<le> ?off" "?off < 4194304"
    by (simp_all add: pos_imp_zdiv_nonneg_iff)
  from FindRewind_loop_end [OF wf count range pos]
  obtain r where r: "FindRewind_loop (block_array sys) ?i ?off p = Return r"
      "uint p \<le> uint r"
      "\<forall>q. uint p \<le> q \<and> q < uint r \<longrightarrow> buffered_at (block_array sys) q"
      "\<not> buffered_at (block_array sys) (uint r)"
    by auto
  have outside: "\<not> buffered_at (block_array sys) (uint p)" if "?i \<ge> vlc_array_count (block_array sys)"
    using that by (simp add: buffered_at_def BUFFER_BLOCK_SIZE_def)
  have same: "r = p" if "\<not> buffered_at (block_array sys) (uint p)"
  proof (rule ccontr)
    assume "r \<noteq> p"
    then have "uint p < uint r"
      using r(2) by (simp add: word_uint_eq_iff)
    then show False
      using r(3) that by auto
  qed
  show ?thesis
  proof (cases "?i \<ge> vlc_array_count (block_array sys)")
    case True
    then show ?thesis
      using outside by (auto simp: unsafe_FindRewindBufferedPosition_def i off Let_def)
  next
    case False
    then have "unsafe_FindRewindBufferedPosition sys p = Return r"
      using r(1) by (simp add: unsafe_FindRewindBufferedPosition_def i off Let_def)
    then show ?thesis
      using r same by (auto simp: word_le_def)
  qed
qed

theorem FindRewind_contiguous_end_witness:
  "blocks_wf (block_array (p_sys filled_once))
   \<and> unsafe_FindRewindBufferedPosition (p_sys filled_once) 10 = Return 16384
   \<and> buffered_at (block_array (p_sys filled_once)) 16383
   \<and> \<not> buffered_at (block_array (p_sys filled_once)) 16384"
proof -
  have wf: "blocks_wf (block_array (p_sys filled_once))"
    by code_simp
  have count: "vlc_array_count (block_array (p_sys filled_once)) \<le> INT_MAX"
    by code_simp
  have index: "uint (10 :: u64) div BUFFER_BLOCK_SIZE \<le> INT_MAX"
    by code_simp
  have find: "unsafe_FindRewindBufferedPosition (p_sys filled_once) 10 = Return 16384"
    by code_simp
  from FindRewind_contiguous_end [OF wf count index]
  have "(\<forall>q. uint (10 :: u64) \<le> q \<and> q < uint (16384 :: u64)
            \<longrightarrow> buffered_at (block_array (p_sys filled_once)) q)
        \<and> \<not> buffered_at (block_array (p_sys filled_once)) (uint (16384 :: u64))"
    by (simp add: find)
  then have "buffered_at (block_array (p_sys filled_once)) 16383"
      "\<not> buffered_at (block_array (p_sys filled_once)) 16384"
    by simp_all
  then show ?thesis
    using wf find by simp
qed

theorem FindRewind_counterexample:
  "blocks_wf (block_array (p_sys filled_once))
   \<and> vlc_array_count (block_array (p_sys filled_once)) = 1
   \<and> uint (18014398509481984 :: u64) div BUFFER_BLOCK_SIZE = 4294967296
   \<and> unsafe_FindRewindBufferedPosition (p_sys filled_once) 18014398509481984 = Return 16384"
  by code_simp

section \<open>Copying buffered data, and Peek\<close>

lemma int_of_u32_of_int:
  assumes "0 \<le> k" "k \<le> INT_MAX"
  shows "int_of_u32 (u32_of_int k) = k"
proof -
  have "sint (word_of_int k :: 32 word) = signed_take_bit 31 k"
    by (simp add: signed_of_int)
  also have "\<dots> = k"
    by (rule signed_take_bit_int_eq_self) (use assms in \<open>simp_all add: INT_MAX_def\<close>)
  finally show ?thesis
    by (simp add: int_of_u32_def u32_of_int_def)
qed

lemma u64_of_u32_of_int:
  assumes "0 \<le> k" "k < 2 ^ 32"
  shows "u64_of_u32 (u32_of_int k) = u64_of_int k"
proof -
  have "uint (u64_of_u32 (u32_of_int k)) = k"
    using assms by (simp add: uint_u32_of_int)
  moreover have "uint (u64_of_int k) = k"
    using assms by (intro uint_u64_of_int) simp_all
  ultimately show ?thesis
    by (simp add: word_uint_eq_iff)
qed

lemma uint_sub_u32:
  fixes a b :: u32
  assumes "uint b \<le> uint a"
  shows "uint (a - b) = uint a - uint b"
  using assms by (simp add: uint_sub_lem [THEN iffD1])

lemma uint_add_u32:
  fixes a b :: u32
  assumes "uint a + uint b < 2 ^ 32"
  shows "uint (a + b) = uint a + uint b"
proof -
  have "uint a + uint b < 2 ^ LENGTH(32)"
    using assms by simp
  then show ?thesis
    by (simp only: uint_add_lem)
qed

lemma fetch_loop_covered:
  assumes wf: "blocks_wf arr"
  shows "0 \<le> i \<Longrightarrow> 0 \<le> off \<Longrightarrow> off < 4194304 \<Longrightarrow> 0 < uint left \<Longrightarrow>
         uint acc + uint left < 2 ^ 32 \<Longrightarrow>
         (\<forall>q. i * 4194304 + off \<le> q \<and> q < i * 4194304 + off + uint left \<longrightarrow> buffered_at arr q) \<Longrightarrow>
         fetch_loop arr i off acc left = Return (acc + left)"
proof (induction "nat (vlc_array_count arr - i)" arbitrary: i off acc left rule: less_induct)
  case less
  note pre = less.prems
  have "buffered_at arr (i * 4194304 + off)"
    using pre(4,6) by simp
  then have inside: "i < vlc_array_count arr"
      "case arr ! nat i of None \<Rightarrow> False | Some b \<Rightarrow> i_data_begin b \<le> off \<and> off < i_data_end b"
    using buffered_at_block [OF pre(1-3), of arr] by simp_all
  then obtain b where b: "arr ! nat i = Some b" "i_data_begin b \<le> off" "off < i_data_end b"
    by (cases "arr ! nat i") auto
  have item: "vlc_array_item_at_index arr i = Some (Some b)"
    using inside(1) pre(1) b(1) by (simp add: vlc_array_item_at_index_def)
  have wfb: "i_data_end b \<le> i_block_size b" "i_block_size b \<le> 4194304"
    using blocks_wf_nth [OF wf pre(1) inside(1) b(1)] by simp_all
  let ?bl = "u32_of_int (i_data_end b - off)"
  have bl: "uint ?bl = i_data_end b - off"
    using b(3) wfb pre(2) by (intro uint_u32_of_int) simp_all
  show ?case
  proof (cases "left > ?bl")
    case False
    then have "fetch_loop arr i off acc left = Return (acc + left)"
      using inside(1) item b wfb by (subst fetch_loop.simps) (simp add: Let_def)
    then show ?thesis .
  next
    case True
    then have more: "i_data_end b - off < uint left"
      using bl by (simp add: word_less_def)
    have rest: "uint (left - ?bl) = uint left - (i_data_end b - off)"
      using more bl uint_sub_u32 [of ?bl left] by simp
    then have nz: "left - ?bl \<noteq> 0"
      using more by (auto simp: word_uint_eq_iff)
    have step: "fetch_loop arr i off acc left
                  = fetch_loop arr (i + 1) 0 (acc + ?bl) (left - ?bl)"
      using inside(1) item b wfb True nz by (subst fetch_loop.simps) (simp add: Let_def)
    have full: "i_data_end b = 4194304"
    proof (rule ccontr)
      assume "i_data_end b \<noteq> 4194304"
      then have short: "i_data_end b < 4194304"
        using wfb by simp
      have "buffered_at arr (i * 4194304 + i_data_end b)"
        using pre(6) b(3) more by simp
      moreover have "0 \<le> i_data_end b"
        using b(3) pre(2) by simp
      ultimately show False
        using buffered_at_block [OF pre(1) _ short, of arr] b(1) by simp
    qed
    have sum: "uint (acc + ?bl) = uint acc + (i_data_end b - off)"
      using uint_add_u32 [of acc ?bl] bl more pre(5) by simp
    have "nat (vlc_array_count arr - (i + 1)) < nat (vlc_array_count arr - i)"
      using inside(1) by simp
    moreover have "0 \<le> i + 1" "(0::int) \<le> 0" "(0::int) < 4194304"
      using pre(1) by simp_all
    moreover have "0 < uint (left - ?bl)"
      using rest more by simp
    moreover have "uint (acc + ?bl) + uint (left - ?bl) < 2 ^ 32"
      using sum rest pre(5) by simp
    moreover have "\<forall>q. (i + 1) * 4194304 + 0 \<le> q \<and> q < (i + 1) * 4194304 + 0 + uint (left - ?bl)
                      \<longrightarrow> buffered_at arr q"
    proof (intro allI impI)
      fix q
      assume q: "(i + 1) * 4194304 + 0 \<le> q \<and> q < (i + 1) * 4194304 + 0 + uint (left - ?bl)"
      have "i * 4194304 + off \<le> q"
        using q pre(3) by (simp add: algebra_simps)
      moreover have "q < i * 4194304 + off + uint left"
        using q rest full by (simp add: algebra_simps)
      ultimately show "buffered_at arr q"
        using pre(6) by simp
    qed
    ultimately have "fetch_loop arr (i + 1) 0 (acc + ?bl) (left - ?bl)
                       = Return ((acc + ?bl) + (left - ?bl))"
      by (rule less.hyps)
    then show ?thesis
      using step by simp
  qed
qed


lemma int_of_u32_cases: "int_of_u32 n = uint n \<or> int_of_u32 n < 0"
proof (cases "0 \<le> sint n")
  case True
  have "sint n < 2 ^ 32"
    using sint_lt [of n] by simp
  then have "take_bit 32 (sint n) = sint n"
    using True by (simp add: take_bit_int_eq_self)
  then have "uint n = sint n"
    using uint_sint [of n] by simp
  then show ?thesis
    by (simp add: int_of_u32_def)
next
  case False
  then show ?thesis
    by (simp add: int_of_u32_def)
qed

lemma int_of_u64_block_offset:
  "int_of_u64 (p mod 4194304) = uint p mod 4194304"
proof -
  have "uint (p mod 4194304) < 2 ^ 31"
    by (simp add: uint_mod)
  then show ?thesis
    using int_of_u64_small by (simp add: uint_mod)
qed

lemma peek_Alloc_keeps:
  "peek_Alloc m sys k = Return (b, sys2) \<Longrightarrow>
     block_array sys2 = block_array sys \<and> i_stream_offset sys2 = i_stream_offset sys
     \<and> i_prebuffer_offset sys2 = i_prebuffer_offset sys"
  by (auto simp: peek_Alloc_def peek_Free_def split: if_splits)

text \<open>
  When every position of \<open>[stream_offset, stream_offset + n)\<close> is buffered, as the note
  on \<^verbatim>\<open>i_prebuffer_offset\<close> in \<^verbatim>\<open>stream_sys_t\<close> asks for, all assertions of
  \<^verbatim>\<open>unsafe_fetchData\<close> hold and it returns \<open>n\<close>.
\<close>

lemma unsafe_fetchData_covered:
  assumes wf: "blocks_wf (block_array sys)"
    and index: "uint (i_stream_offset sys) div BUFFER_BLOCK_SIZE \<le> INT_MAX"
    and n: "n \<noteq> 0"
    and post: "i_stream_offset sys + u64_of_u32 n \<le> i_prebuffer_offset sys"
    and cov: "\<forall>q. uint (i_stream_offset sys) \<le> q \<and> q < uint (i_stream_offset sys) + uint n
                \<longrightarrow> buffered_at (block_array sys) q"
  shows "unsafe_fetchData sys n = Return (int_of_u32 n)"
proof -
  let ?p = "i_stream_offset sys"
  let ?i = "uint ?p div 4194304" and ?off = "uint ?p mod 4194304"
  have small: "uint (?p div 4194304) < 2 ^ 31"
    using index by (simp add: uint_div INT_MAX_def BUFFER_BLOCK_SIZE_def)
  have i: "int_of_u64 (?p div 4194304) = ?i"
    using int_of_u64_small [OF small] by (simp add: uint_div)
  have "uint (?p mod 4194304) < 2 ^ 31"
    by (simp add: uint_mod)
  then have off: "int_of_u64 (?p mod 4194304) = ?off"
    using int_of_u64_small by (simp add: uint_mod)
  have pos: "uint ?p = ?i * 4194304 + ?off"
    by simp
  have range: "0 \<le> ?i" "0 \<le> ?off" "?off < 4194304"
    by (simp_all add: pos_imp_zdiv_nonneg_iff)
  have left: "0 < uint n"
    using n by (simp add: word_uint_eq_iff order_less_le)
  have "buffered_at (block_array sys) (uint ?p)"
    using cov left by simp
  then have count: "?i < vlc_array_count (block_array sys)"
    by (simp add: buffered_at_def BUFFER_BLOCK_SIZE_def)
  have cov': "\<forall>q. ?i * 4194304 + ?off \<le> q \<and> q < ?i * 4194304 + ?off + uint n
                \<longrightarrow> buffered_at (block_array sys) q"
    using cov by simp
  have "uint (0 :: u32) + uint n < 2 ^ 32"
    using uint_lt2p [of n] by simp
  from fetch_loop_covered [OF wf range left this cov']
  have "fetch_loop (block_array sys) ?i ?off 0 n = Return n"
    by simp
  then show ?thesis
    using post count by (simp add: unsafe_fetchData_def i off Let_def)
qed

lemma Peek_after_wait:
  assumes wait: "safe_WaitFillData ws s n = Return (ready, s1)"
    and ready: "0 < ready"
    and post: "i_stream_offset (p_sys s1) + u64_of_int ready \<le> i_prebuffer_offset (p_sys s1)"
  shows "Peek malloc_ok ws s True n =
     (let i_block_index =
            int_of_u64 (i_stream_offset (p_sys s1) div u64_of_int BUFFER_BLOCK_SIZE);
          i_block_offset =
            int_of_u64 (i_stream_offset (p_sys s1) mod u64_of_int BUFFER_BLOCK_SIZE)
      in if i_block_offset + ready > INT_MAX then Undefined_behaviour
         else if i_block_offset + ready \<le> BUFFER_BLOCK_SIZE then
           (case vlc_array_item_at_index (block_array (p_sys s1)) i_block_index of
              None \<Rightarrow> Undefined_behaviour
            | Some None \<Rightarrow> Assert_fail
            | Some (Some p_block) \<Rightarrow>
                if \<not> i_block_offset \<ge> i_data_begin p_block then Assert_fail
                else if \<not> i_block_offset < i_data_end p_block then Assert_fail
                else if \<not> i_data_end p_block \<le> i_block_size p_block then Assert_fail
                else Return (int_of_u32 n, Ptr_block i_block_index i_block_offset, s1))
         else
           bind_result (peek_Alloc malloc_ok (p_sys s1) ready)
             (\<lambda>(p_temp, sys2).
                if \<not> p_temp then Return (- 1, Ptr_unset, s1\<lparr>p_sys := sys2\<rparr>)
                else
                  bind_result (unsafe_fetchData sys2 (u32_of_int ready))
                    (\<lambda>i_fetch. Return (i_fetch, Ptr_temp, s1\<lparr>p_sys := sys2\<rparr>))))"
  using wait ready post by (simp add: Peek_def)

text \<open>
  C9. Let \<^verbatim>\<open>safe_WaitFillData\<close> answer a \<^verbatim>\<open>Peek\<close> of \<open>n\<close> bytes with a positive
  count \<open>ready < n\<close>. If the \<open>ready\<close> bytes lie within one block
  (\<open>offset + ready \<le> BLOCK_SIZE\<close>) and the assertions on that block hold, \<^verbatim>\<open>Peek\<close>
  points \<^verbatim>\<open>*pp_peek\<close> into the block and returns the \<open>n\<close> that was asked for (as a C
  \<^verbatim>\<open>int\<close>), which is never \<open>ready\<close> and is more than \<open>ready\<close> whenever \<open>n\<close> fits
  an \<^verbatim>\<open>int\<close>. If they cross a block boundary, the scratch buffer can be had and the
  bytes are buffered, \<^verbatim>\<open>Peek\<close> points \<^verbatim>\<open>*pp_peek\<close> to the scratch buffer and returns
  \<open>ready\<close>.
\<close>

theorem Peek_fast_path_returns_request:
  assumes wait: "safe_WaitFillData ws s n = Return (ready, s1)"
    and clamped: "0 < ready" "ready < uint n"
    and post: "i_stream_offset (p_sys s1) + u64_of_int ready \<le> i_prebuffer_offset (p_sys s1)"
    and i: "i = int_of_u64 (i_stream_offset (p_sys s1) div 4194304)"
    and off: "off = int_of_u64 (i_stream_offset (p_sys s1) mod 4194304)"
  shows "(off + ready \<le> BUFFER_BLOCK_SIZE \<longrightarrow>
          vlc_array_item_at_index (block_array (p_sys s1)) i = Some (Some b) \<longrightarrow>
          i_data_begin b \<le> off \<longrightarrow> off < i_data_end b \<longrightarrow> i_data_end b \<le> i_block_size b \<longrightarrow>
            Peek malloc_ok ws s True n = Return (int_of_u32 n, Ptr_block i off, s1)
            \<and> int_of_u32 n \<noteq> ready
            \<and> (uint n \<le> INT_MAX \<longrightarrow> ready < int_of_u32 n))
       \<and> (BUFFER_BLOCK_SIZE < off + ready \<longrightarrow> off + ready \<le> INT_MAX \<longrightarrow>
          peek_Alloc malloc_ok (p_sys s1) ready = Return (True, sys2) \<longrightarrow>
          blocks_wf (block_array (p_sys s1)) \<longrightarrow>
          uint (i_stream_offset (p_sys s1)) div BUFFER_BLOCK_SIZE \<le> INT_MAX \<longrightarrow>
          (\<forall>q. uint (i_stream_offset (p_sys s1)) \<le> q
                \<and> q < uint (i_stream_offset (p_sys s1)) + ready
                \<longrightarrow> buffered_at (block_array (p_sys s1)) q) \<longrightarrow>
            Peek malloc_ok ws s True n = Return (ready, Ptr_temp, s1\<lparr>p_sys := sys2\<rparr>))"
proof (intro conjI impI)
  assume fits: "off + ready \<le> BUFFER_BLOCK_SIZE"
    and blk: "vlc_array_item_at_index (block_array (p_sys s1)) i = Some (Some b)"
    and range: "i_data_begin b \<le> off" "off < i_data_end b" "i_data_end b \<le> i_block_size b"
  have "off + ready \<le> INT_MAX"
    using fits by (simp add: BUFFER_BLOCK_SIZE_def INT_MAX_def)
  then show "Peek malloc_ok ws s True n = Return (int_of_u32 n, Ptr_block i off, s1)"
    using fits blk range
    by (simp add: Peek_after_wait [OF wait clamped(1) post] i [symmetric] off [symmetric])
  show "int_of_u32 n \<noteq> ready"
    using int_of_u32_cases [of n] clamped by auto
  assume "uint n \<le> INT_MAX"
  then have "int_of_u32 n = uint n"
    by (rule int_of_u32_small)
  then show "ready < int_of_u32 n"
    using clamped by simp
next
  assume cross: "BUFFER_BLOCK_SIZE < off + ready" and fits: "off + ready \<le> INT_MAX"
    and alloc: "peek_Alloc malloc_ok (p_sys s1) ready = Return (True, sys2)"
    and wf: "blocks_wf (block_array (p_sys s1))"
    and index: "uint (i_stream_offset (p_sys s1)) div BUFFER_BLOCK_SIZE \<le> INT_MAX"
    and cov: "\<forall>q. uint (i_stream_offset (p_sys s1)) \<le> q
                \<and> q < uint (i_stream_offset (p_sys s1)) + ready
                \<longrightarrow> buffered_at (block_array (p_sys s1)) q"
  have "0 \<le> off"
    unfolding off int_of_u64_block_offset by simp
  then have small: "ready \<le> INT_MAX"
    using fits by simp
  have keep: "block_array sys2 = block_array (p_sys s1)"
      "i_stream_offset sys2 = i_stream_offset (p_sys s1)"
      "i_prebuffer_offset sys2 = i_prebuffer_offset (p_sys s1)"
    using peek_Alloc_keeps [OF alloc] by simp_all
  have u: "uint (u32_of_int ready) = ready"
    using clamped(1) small by (intro uint_u32_of_int) (simp_all add: INT_MAX_def)
  have nz: "u32_of_int ready \<noteq> 0"
    using u clamped(1) by (auto simp: word_uint_eq_iff)
  have conv: "u64_of_u32 (u32_of_int ready) = u64_of_int ready"
    using clamped(1) small by (intro u64_of_u32_of_int) (simp_all add: INT_MAX_def)
  have "unsafe_fetchData sys2 (u32_of_int ready) = Return (int_of_u32 (u32_of_int ready))"
    by (rule unsafe_fetchData_covered) (use wf index nz post cov in \<open>simp_all add: keep u conv\<close>)
  then have fetch: "unsafe_fetchData sys2 (u32_of_int ready) = Return ready"
    using int_of_u32_of_int [of ready] clamped(1) small by simp
  show "Peek malloc_ok ws s True n = Return (ready, Ptr_temp, s1\<lparr>p_sys := sys2\<rparr>)"
    using cross fits alloc fetch
    by (simp add: Peek_after_wait [OF wait clamped(1) post] i [symmetric] off [symmetric])
qed


theorem Peek_fast_path_returns_request_witness:
  "safe_WaitFillData [] small_at_eos 100 = Return (10, small_at_eos)
   \<and> Peek True [] small_at_eos True 100 = Return (100, Ptr_block 0 0, small_at_eos)
   \<and> safe_WaitFillData [] two_block_eos 100 = Return (15, two_block_eos)
   \<and> Peek True [] two_block_eos True 100
       = Return (15, Ptr_temp,
           two_block_eos\<lparr>p_sys := (p_sys two_block_eos)\<lparr>
             p_temp_peek := True, i_temp_peek_capacity := 15\<rparr>\<rparr>)"
proof -
  have wait1: "safe_WaitFillData [] small_at_eos 100 = Return (10, small_at_eos)"
    by code_simp
  have post1: "i_stream_offset (p_sys small_at_eos) + u64_of_int 10
                 \<le> i_prebuffer_offset (p_sys small_at_eos)"
    by code_simp
  have i1: "0 = int_of_u64 (i_stream_offset (p_sys small_at_eos) div 4194304)"
    by code_simp
  have off1: "0 = int_of_u64 (i_stream_offset (p_sys small_at_eos) mod 4194304)"
    by code_simp
  have blk1: "vlc_array_item_at_index (block_array (p_sys small_at_eos)) 0
                = Some (Some \<lparr>i_block_size = 10, i_data_begin = 0, i_data_end = 10\<rparr>)"
    by code_simp
  have fast: "Peek True [] small_at_eos True 100 = Return (100, Ptr_block 0 0, small_at_eos)"
    using Peek_fast_path_returns_request [OF wait1 _ _ post1 i1 off1,
        of "\<lparr>i_block_size = 10, i_data_begin = 0, i_data_end = 10\<rparr>" True] blk1
    by (simp add: BUFFER_BLOCK_SIZE_def int_of_u32_def)
  have wait2: "safe_WaitFillData [] two_block_eos 100 = Return (15, two_block_eos)"
    by code_simp
  have so2: "i_stream_offset (p_sys two_block_eos) = 4194299"
    by code_simp
  have post2: "i_stream_offset (p_sys two_block_eos) + u64_of_int 15
                 \<le> i_prebuffer_offset (p_sys two_block_eos)"
    by code_simp
  have i2: "0 = int_of_u64 (i_stream_offset (p_sys two_block_eos) div 4194304)"
    by code_simp
  have off2: "4194299 = int_of_u64 (i_stream_offset (p_sys two_block_eos) mod 4194304)"
    by code_simp
  have alloc: "peek_Alloc True (p_sys two_block_eos) 15
                 = Return (True, (p_sys two_block_eos)\<lparr>p_temp_peek := True, i_temp_peek_capacity := 15\<rparr>)"
    by code_simp
  have wf: "blocks_wf (block_array (p_sys two_block_eos))"
    by code_simp
  have "\<forall>q\<in>{4194299..4194313}. buffered_at (block_array (p_sys two_block_eos)) q"
    by code_simp
  then have cov: "\<forall>q. uint (i_stream_offset (p_sys two_block_eos)) \<le> q
                \<and> q < uint (i_stream_offset (p_sys two_block_eos)) + 15
                \<longrightarrow> buffered_at (block_array (p_sys two_block_eos)) q"
    by (simp add: so2)
  have scratch: "Peek True [] two_block_eos True 100
       = Return (15, Ptr_temp,
           two_block_eos\<lparr>p_sys := (p_sys two_block_eos)\<lparr>
             p_temp_peek := True, i_temp_peek_capacity := 15\<rparr>\<rparr>)"
    using Peek_fast_path_returns_request [OF wait2 _ _ post2 i2 off2,
        of _ True "(p_sys two_block_eos)\<lparr>p_temp_peek := True, i_temp_peek_capacity := 15\<rparr>"]
      alloc wf cov
    by (simp add: BUFFER_BLOCK_SIZE_def INT_MAX_def so2)
  show ?thesis
    using wait1 fast wait2 scratch by simp
qed

end
